theory Spec2Isabelle
  imports Main "HOL-Library.Sublist" "HOL-Library.Multiset"
begin

section \<open>The terminal: timed input, the clock and the decoder\<close>

text \<open>
  \<^verbatim>\<open>flashcards.py\<close> reads the terminal one character at a time, in raw mode. The
  input not yet read is a list of what one read returns (on Unix a character of the
  text stream, with a code below 256; on Windows a byte), each with the time (in
  milliseconds) at which it arrives. A blocking read returns at the arrival time of the
  next character (or at once, if it has arrived already); a read on the empty list
  never returns, which every function below reports as \<open>None\<close>. The clock moves only
  while the program waits: computation takes no time. \<open>time.time()\<close> and
  \<open>datetime.now()\<close> read this clock, and a timeout of \<open>select\<close> is a number of
  milliseconds.
\<close>

type_synonym clock = int

type_synonym input = "(clock \<times> char) list"

text \<open>
  \<open>sys.stdin.read(1)\<close> and \<open>msvcrt.getch()\<close>: the blocking read of one character.
  On Unix the characters of the list are those the text stream has decoded: a byte that
  it cannot decode, on which \<open>sys.stdin.read(1)\<close> raises \<open>UnicodeDecodeError\<close>, is
  no element of an input.
\<close>

fun read1 :: "clock \<Rightarrow> input \<Rightarrow> (char \<times> clock \<times> input) option" where
  "read1 now [] = None"
| "read1 now ((a, c) # rest) = Some (c, max now a, rest)"

text \<open>
  The loop \<^verbatim>\<open>while select.select([sys.stdin], [], [], tmo)[0]: sys.stdin.read(1)\<close>:
  every character that arrives within \<open>tmo\<close> of the last one is read and thrown away;
  the loop ends when \<open>select\<close> times out. Here \<open>select\<close> sees every character
  that has arrived and is not yet read, as it does when the characters arrive one at a
  time. (The text stream reads ahead: characters that arrive in one write together with
  a character already read are in its buffer, where \<open>select\<close> on the descriptor does
  not see them, and they are left for the reads that follow. Such inputs are not
  described by this function.)
\<close>

fun drain_while :: "int \<Rightarrow> clock \<Rightarrow> input \<Rightarrow> clock \<times> input" where
  "drain_while tmo now [] = (now + tmo, [])"
| "drain_while tmo now ((a, c) # rest) =
     (if a \<le> now + tmo then drain_while tmo (max now a) rest
      else (now + tmo, (a, c) # rest))"

text \<open>\<open>flush_stdin\<close>: on Unix, drain with a timeout of 0.1 s; elsewhere nothing.\<close>

definition flush_stdin :: "bool \<Rightarrow> clock \<Rightarrow> input \<Rightarrow> clock \<times> input" where
  "flush_stdin unix now inp = (if unix then drain_while 100 now inp else (now, inp))"

text \<open>
  Python's \<open>s in t\<close> for strings is the test for a contiguous substring, so the empty
  string is \<open>in\<close> every string.
\<close>

definition py_in :: "string \<Rightarrow> string \<Rightarrow> bool" where
  "py_in s t = sublist s t"

text \<open>
  \<open>bytes.decode('utf-8', errors='ignore')\<close> on the single byte that \<open>msvcrt.getch()\<close>
  returns: an ASCII byte is its character, any other byte is an invalid or incomplete
  sequence and is dropped, which leaves the empty string.
\<close>

definition decode_ignore :: "char \<Rightarrow> string" where
  "decode_ignore b = (if (of_char b :: nat) < 128 then [b] else [])"

definition allowed_keys :: string where
  "allowed_keys = ''qQxX0123456789pdwmsPDWMSuUiItTbBhH''"

text \<open>
  \<open>get_key\<close>. The flag \<open>unix\<close> is the module constant \<open>UNIX\<close>. The result is \<open>None\<close>
  when the first read never returns, and otherwise the key (Python's \<open>None\<close> or a
  string), the clock and the input left. A key is a Python string, of length one on
  Unix and of length one or zero on Windows.
\<close>

definition get_key :: "bool \<Rightarrow> clock \<Rightarrow> input \<Rightarrow> (string option \<times> clock \<times> input) option" where
  "get_key unix now inp =
     (case read1 now inp of
        None \<Rightarrow> None
      | Some (b, t, rest) \<Rightarrow>
          if unix then
            (let ch = [b] in
             if ch = [CHR 0x1B] then
               (let (t1, r1) = drain_while 150 t rest;
                    (t2, r2) = drain_while 150 t1 r1;
                    (t3, r3) = drain_while 150 t2 r2
                in Some (None, t3, r3))
             else if (of_char b :: nat) < 32 \<and> ch \<noteq> '' '' then
               (let (t1, r1) = drain_while 50 t rest in Some (None, t1, r1))
             else if ch = '' '' \<or> py_in ch allowed_keys then Some (Some ch, t, rest)
             else Some (None, t, rest))
          else
            (let ch = decode_ignore b in
             if ch = '' '' \<or> py_in ch allowed_keys then Some (Some ch, t, rest)
             else Some (None, t, rest)))"

text \<open>
  \<open>str.lower()\<close>, on ASCII: every key that \<open>get_key\<close> returns is ASCII or empty.
\<close>

definition lower_char :: "char \<Rightarrow> char" where
  "lower_char c =
     (case map_of (zip ''ABCDEFGHIJKLMNOPQRSTUVWXYZ'' ''abcdefghijklmnopqrstuvwxyz'') c of
        Some l \<Rightarrow> l
      | None \<Rightarrow> c)"

definition py_lower :: "string \<Rightarrow> string" where
  "py_lower s = map lower_char s"

lemma drain_while_length: "length (snd (drain_while tmo now inp)) \<le> length inp"
  by (induction tmo now inp rule: drain_while.induct) auto

lemma drain_while_length_eq:
  "drain_while tmo now inp = (t, r) \<Longrightarrow> length r \<le> length inp"
  using drain_while_length [of tmo now inp] by simp

lemma get_key_shorter:
  assumes "get_key unix now inp = Some (k, t, rest)"
  shows "length rest < length inp"
proof (cases inp)
  case Nil
  with assms show ?thesis by (simp add: get_key_def)
next
  case (Cons e inp')
  obtain a c where e: "e = (a, c)" by (cases e)
  obtain t1 r1 where d1: "drain_while 150 (max now a) inp' = (t1, r1)" by fastforce
  obtain t2 r2 where d2: "drain_while 150 t1 r1 = (t2, r2)" by fastforce
  obtain t3 r3 where d3: "drain_while 150 t2 r2 = (t3, r3)" by fastforce
  obtain t4 r4 where d4: "drain_while 50 (max now a) inp' = (t4, r4)" by fastforce
  have "length r3 \<le> length inp'"
    using drain_while_length_eq [OF d1] drain_while_length_eq [OF d2]
      drain_while_length_eq [OF d3] by simp
  moreover have "length r4 \<le> length inp'"
    using drain_while_length_eq [OF d4] by simp
  ultimately show ?thesis
    using assms Cons e d1 d2 d3 d4
    by (auto simp: get_key_def Let_def split: if_splits)
qed

text \<open>
  \<open>check_for_quit\<close>. \<open>timeout = time.time() + 1.0\<close> is the deadline; the loop
  \<^verbatim>\<open>while len(buffer) < 4 and time.time() < timeout\<close> is \<open>quit_loop\<close>, which reads the
  clock at the head of every round and then waits in \<open>get_key\<close> for as long as the
  next character takes.
\<close>

function quit_loop :: "bool \<Rightarrow> string \<Rightarrow> clock \<Rightarrow> clock \<Rightarrow> input \<Rightarrow> (bool \<times> clock \<times> input) option" where
  "quit_loop unix buffer timeout now inp =
     (if length buffer < 4 \<and> now < timeout then
        (case get_key unix now inp of
           None \<Rightarrow> None
         | Some (None, t, rest) \<Rightarrow> quit_loop unix buffer timeout t rest
         | Some (Some key, t, rest) \<Rightarrow>
             (let buffer' = buffer @ py_lower key in
              if buffer' = ''quit'' then Some (True, t, rest)
              else if \<not> prefix buffer' ''quit'' then Some (False, t, rest)
              else quit_loop unix buffer' timeout t rest))
      else Some (False, now, inp))"
  by pat_completeness auto
termination
  by (relation "measure (\<lambda>(unix, buffer, timeout, now, inp). length inp)")
    (auto dest: get_key_shorter)

declare quit_loop.simps [simp del]

definition check_for_quit :: "bool \<Rightarrow> string option \<Rightarrow> clock \<Rightarrow> input \<Rightarrow> (bool \<times> clock \<times> input) option" where
  "check_for_quit unix key now inp =
     (case key of
        None \<Rightarrow> Some (False, now, inp)
      | Some k \<Rightarrow>
          if py_lower k \<noteq> ''q'' then Some (False, now, inp)
          else quit_loop unix ''q'' (now + 1000) now inp)"

lemma quit_loop_length:
  "quit_loop unix buffer timeout now inp = Some (q, t, rest) \<Longrightarrow> length rest \<le> length inp"
proof (induction inp arbitrary: buffer now rule: length_induct)
  case (1 inp)
  have IH: "\<And>r1 b n. length r1 < length inp \<Longrightarrow>
      quit_loop unix b timeout n r1 = Some (q, t, rest) \<Longrightarrow> length rest \<le> length inp"
    using "1.IH" by (meson le_trans less_imp_le_nat)
  from "1.prems" show ?case
    by (subst (asm) quit_loop.simps)
      (auto simp: Let_def split: if_splits option.splits
        dest!: get_key_shorter intro: IH)
qed

lemma check_for_quit_length:
  "check_for_quit unix key now inp = Some (q, t, rest) \<Longrightarrow> length rest \<le> length inp"
  by (auto simp: check_for_quit_def split: option.splits if_splits dest: quit_loop_length)

section \<open>The quiz: the waits for a key\<close>

text \<open>
  The question step of \<open>run_quiz\<close> (the first \<^verbatim>\<open>while True\<close> of an iteration, the same
  in the main loop and in the loop over the pending repeats): a space shows the answer
  (\<open>True\<close>), a confirmed quit ends the session (\<open>False\<close>), every other key is passed
  over.
\<close>

function quiz_question_keys :: "bool \<Rightarrow> clock \<Rightarrow> input \<Rightarrow> (bool \<times> clock \<times> input) option" where
  "quiz_question_keys unix now inp =
     (case get_key unix now inp of
        None \<Rightarrow> None
      | Some (None, t, rest) \<Rightarrow> quiz_question_keys unix t rest
      | Some (Some key, t, rest) \<Rightarrow>
          if key = '' '' then Some (True, t, rest)
          else (case check_for_quit unix (Some key) t rest of
                  None \<Rightarrow> None
                | Some (q, t', rest') \<Rightarrow>
                    if q then Some (False, t', rest')
                    else quiz_question_keys unix t' rest'))"
  by pat_completeness auto
termination
proof (relation "measure (\<lambda>(unix, now, inp). length inp)", goal_cases)
  case 1
  show ?case by simp
next
  case 2
  then show ?case by (auto dest: get_key_shorter)
next
  case 3
  then show ?case
    by (auto dest!: get_key_shorter check_for_quit_length)
qed

declare quiz_question_keys.simps [simp del]

datatype judgement = Correct | Incorrect | QuitSession

text \<open>The answer step: space is "correct", \<open>x\<close> or \<open>X\<close> is "incorrect".\<close>

function quiz_answer_keys :: "bool \<Rightarrow> clock \<Rightarrow> input \<Rightarrow> (judgement \<times> clock \<times> input) option" where
  "quiz_answer_keys unix now inp =
     (case get_key unix now inp of
        None \<Rightarrow> None
      | Some (None, t, rest) \<Rightarrow> quiz_answer_keys unix t rest
      | Some (Some key, t, rest) \<Rightarrow>
          if key = '' '' then Some (Correct, t, rest)
          else if py_lower key = ''x'' then Some (Incorrect, t, rest)
          else (case check_for_quit unix (Some key) t rest of
                  None \<Rightarrow> None
                | Some (q, t', rest') \<Rightarrow>
                    if q then Some (QuitSession, t', rest')
                    else quiz_answer_keys unix t' rest'))"
  by pat_completeness auto
termination
proof (relation "measure (\<lambda>(unix, now, inp). length inp)", goal_cases)
  case 1
  show ?case by simp
next
  case 2
  then show ?case by (auto dest: get_key_shorter)
next
  case 3
  then show ?case
    by (auto dest!: get_key_shorter check_for_quit_length)
qed

declare quiz_answer_keys.simps [simp del]

text \<open>Both steps of one card: the judgement the card receives, or the quit.\<close>

definition await_judgement :: "bool \<Rightarrow> clock \<Rightarrow> input \<Rightarrow> (judgement \<times> clock \<times> input) option" where
  "await_judgement unix now inp =
     (case quiz_question_keys unix now inp of
        None \<Rightarrow> None
      | Some (reveal, t, rest) \<Rightarrow>
          if reveal then quiz_answer_keys unix t rest else Some (QuitSession, t, rest))"

lemma quiz_question_keys_shorter:
  "quiz_question_keys unix now inp = Some (r, t, rest) \<Longrightarrow> length rest < length inp"
proof (induction inp arbitrary: now rule: length_induct)
  case (1 inp)
  have IH: "\<And>r1 n. length r1 < length inp \<Longrightarrow>
      quiz_question_keys unix n r1 = Some (r, t, rest) \<Longrightarrow> length rest < length inp"
    using "1.IH" by (meson less_trans)
  have IH': "\<And>r1 r2 n. length r1 < length inp \<Longrightarrow> length r2 \<le> length r1 \<Longrightarrow>
      quiz_question_keys unix n r2 = Some (r, t, rest) \<Longrightarrow> length rest < length inp"
    using IH by (meson le_less_trans)
  from "1.prems" show ?case
    by (subst (asm) quiz_question_keys.simps)
      (auto simp: Let_def split: if_splits option.splits
        dest!: get_key_shorter check_for_quit_length; blast intro: IH IH')
qed

lemma quiz_answer_keys_shorter:
  "quiz_answer_keys unix now inp = Some (r, t, rest) \<Longrightarrow> length rest < length inp"
proof (induction inp arbitrary: now rule: length_induct)
  case (1 inp)
  have IH: "\<And>r1 n. length r1 < length inp \<Longrightarrow>
      quiz_answer_keys unix n r1 = Some (r, t, rest) \<Longrightarrow> length rest < length inp"
    using "1.IH" by (meson less_trans)
  have IH': "\<And>r1 r2 n. length r1 < length inp \<Longrightarrow> length r2 \<le> length r1 \<Longrightarrow>
      quiz_answer_keys unix n r2 = Some (r, t, rest) \<Longrightarrow> length rest < length inp"
    using IH by (meson le_less_trans)
  from "1.prems" show ?case
    by (subst (asm) quiz_answer_keys.simps)
      (auto simp: Let_def split: if_splits option.splits
        dest!: get_key_shorter check_for_quit_length; blast intro: IH IH')
qed

lemma await_judgement_shorter:
  "await_judgement unix now inp = Some (j, t, rest) \<Longrightarrow> length rest < length inp"
  by (auto simp: await_judgement_def split: option.splits if_splits
      dest!: quiz_question_keys_shorter quiz_answer_keys_shorter)

section \<open>The quiz: data\<close>

text \<open>A word is a row of \<open>words.csv\<close>, as \<open>load_words\<close> builds it.\<close>

record word =
  pinyin :: string
  meaning :: string
  tone :: string
  group :: int
  character :: string

text \<open>A row of \<open>results.csv\<close>, as \<open>load_results\<close> builds it.\<close>

record answer_row =
  res_timestamp :: clock
  res_session :: string
  res_pinyin :: string
  res_character :: string
  res_group :: int
  res_correct :: bool

text \<open>
  What a session does to the outside: \<open>save_result\<close> and \<open>save_practice_time\<close> append
  to the results file (the result sink); \<open>show_final_score\<close> prints the counts. Each
  call is one entry of the session's list of effects, with its arguments. Drawing a
  card (\<open>display_card\<close>), the debug log and the closing prompts have no part in the
  scheduling and are left out.
\<close>

datatype effect =
    SaveResult word bool clock "int list"
  | SavePracticeTime clock int "int list"
  | ShowFinalScore int int bool

record session =
  now :: clock
  stdin :: input
  effects :: "effect list"
  session_id :: clock
  selected_groups :: "int list"

text \<open>
  The locals of \<open>run_quiz\<close>. \<open>repeat_words\<close> is a Python dict, which keeps its keys in
  the order of their first insertion: an association list. \<open>pending\<close> is what is left
  of the list the \<^verbatim>\<open>for\<close> loop of the last phase walks through. \<open>rng\<close> is the random
  source: the raw draws still to come (a draw from the empty list is 0).
\<close>

record quiz_state = session +
  queue :: "(word \<times> int) list"
  repeat_words :: "(string \<times> (word \<times> int \<times> int)) list"
  pending :: "(word \<times> int) list"
  position :: int
  correct_count :: int
  incorrect_count :: int
  rng :: "nat list"

text \<open>
  How an iteration of a loop ends: stuck in a read that never returns, by a \<open>return\<close>
  out of the function, or normally. The loops of the quiz report, for a session that is
  stuck, the state at the head of the iteration it is stuck in, which still holds the
  card being shown.
\<close>

datatype ('l, 's) outcome = Blocked 's | Ended 's | Next 'l 's

section \<open>The random source and the dict\<close>

text \<open>\<open>random.randint(a, b)\<close>, for \<open>a \<le> b\<close>: a value of the inclusive range.\<close>

definition randint :: "nat list \<Rightarrow> int \<Rightarrow> int \<Rightarrow> int \<times> nat list" where
  "randint rs a b =
     (case rs of
        [] \<Rightarrow> (a, [])
      | r # rs' \<Rightarrow> (a + int (r mod nat (b - a + 1)), rs'))"

text \<open>
  \<open>random.shuffle(x)\<close>:
  \<^verbatim>\<open>for i in reversed(range(1, len(x))): j = randbelow(i + 1); x[i], x[j] = x[j], x[i]\<close>
\<close>

fun shuffle_from :: "nat \<Rightarrow> nat list \<Rightarrow> 'a list \<Rightarrow> 'a list \<times> nat list" where
  "shuffle_from 0 rs xs = (xs, rs)"
| "shuffle_from (Suc i) rs xs =
     (let (j, rs') = randint rs 0 (int (Suc i))
      in shuffle_from i rs' (xs[Suc i := xs ! nat j, nat j := xs ! Suc i]))"

definition shuffle :: "nat list \<Rightarrow> 'a list \<Rightarrow> 'a list \<times> nat list" where
  "shuffle rs xs = shuffle_from (length xs - 1) rs xs"

text \<open>\<open>d[k] = v\<close>: an old key keeps its place, a new key goes to the end.\<close>

fun dict_set :: "'k \<Rightarrow> 'v \<Rightarrow> ('k \<times> 'v) list \<Rightarrow> ('k \<times> 'v) list" where
  "dict_set k v [] = [(k, v)]"
| "dict_set k v ((k', v') # kvs) =
     (if k' = k then (k, v) # kvs else (k', v') # dict_set k v kvs)"

text \<open>\<open>list.insert(i, x)\<close> for \<open>0 \<le> i\<close>.\<close>

definition list_insert :: "nat \<Rightarrow> 'a \<Rightarrow> 'a list \<Rightarrow> 'a list" where
  "list_insert i x xs = take i xs @ x # drop i xs"

section \<open>The quiz: one card of the main loop\<close>

text \<open>\<^verbatim>\<open>if position >= insert_pos\<close>, for an item of \<open>repeat_words\<close>.\<close>

definition is_due :: "int \<Rightarrow> string \<times> (word \<times> int \<times> int) \<Rightarrow> bool" where
  "is_due pos e = (case e of (k, (rw, streak_needed, insert_pos)) \<Rightarrow> pos \<ge> insert_pos)"

text \<open>
  \<^verbatim>\<open>for rw, streak in words_to_insert:
      insert_idx = random.randint(0, min(3, len(queue))); queue.insert(insert_idx, (rw, streak))\<close>
\<close>

fun insert_words :: "(word \<times> int) list \<Rightarrow> (word \<times> int) list \<Rightarrow> nat list \<Rightarrow> (word \<times> int) list \<times> nat list" where
  "insert_words [] q rs = (q, rs)"
| "insert_words (e # es) q rs =
     (let (insert_idx, rs') = randint rs 0 (min 3 (int (length q)))
      in insert_words es (list_insert (nat insert_idx) e q) rs')"

text \<open>"Add any repeat words that are due": out of the dict, into the queue.\<close>

definition add_due_repeats :: "quiz_state \<Rightarrow> quiz_state" where
  "add_due_repeats s =
     (let words_to_insert =
            map (\<lambda>(k, (rw, streak_needed, insert_pos)). (rw, streak_needed))
              (filter (is_due (position s)) (repeat_words s));
          (q, rs) = insert_words words_to_insert (queue s) (rng s)
      in s\<lparr>queue := q,
           repeat_words := filter (\<lambda>e. \<not> is_due (position s) e) (repeat_words s),
           rng := rs\<rparr>)"

definition save_result :: "word \<Rightarrow> bool \<Rightarrow> quiz_state \<Rightarrow> quiz_state" where
  "save_result w correct s =
     s\<lparr>effects := effects s @ [SaveResult w correct (session_id s) (selected_groups s)]\<rparr>"

definition show_final_score :: "bool \<Rightarrow> quiz_state \<Rightarrow> quiz_state" where
  "show_final_score complete s =
     s\<lparr>effects := effects s @ [ShowFinalScore (correct_count s) (incorrect_count s) complete]\<rparr>"

text \<open>The branch of the space key at the answer step of the main loop.\<close>

definition mark_correct :: "word \<Rightarrow> int \<Rightarrow> quiz_state \<Rightarrow> quiz_state" where
  "mark_correct w needed_correct s =
     (let s1 = save_result w True (s\<lparr>correct_count := correct_count s + 1\<rparr>)
      in if needed_correct > 1 then
           (let (r, rs) = randint (rng s1) 5 10;
                insert_pos = position s1 + r
            in s1\<lparr>repeat_words :=
                    dict_set (pinyin w) (w, needed_correct - 1, insert_pos) (repeat_words s1),
                  rng := rs\<rparr>)
         else s1)"

text \<open>The branch of the \<open>x\<close> key.\<close>

definition mark_incorrect :: "word \<Rightarrow> quiz_state \<Rightarrow> quiz_state" where
  "mark_incorrect w s =
     (let s1 = save_result w False (s\<lparr>incorrect_count := incorrect_count s + 1\<rparr>);
          (r, rs) = randint (rng s1) 5 10;
          insert_pos = position s1 + r
      in s1\<lparr>repeat_words := dict_set (pinyin w) (w, 2, insert_pos) (repeat_words s1),
            rng := rs\<rparr>)"

text \<open>
  The body of \<^verbatim>\<open>while queue\<close>, after \<open>word, needed_correct = queue.pop(0)\<close>. The
  label of \<open>Next\<close> says whether the card was judged correct.
\<close>

definition main_iteration :: "bool \<Rightarrow> word \<Rightarrow> int \<Rightarrow> quiz_state \<Rightarrow> (bool, quiz_state) outcome" where
  "main_iteration unix w needed_correct s =
     (let s1 = add_due_repeats s in
      case await_judgement unix (now s1) (stdin s1) of
        None \<Rightarrow> Blocked s1
      | Some (j, t, rest) \<Rightarrow>
          (let s2 = s1\<lparr>now := t, stdin := rest\<rparr> in
           case j of
             QuitSession \<Rightarrow> Ended (show_final_score False s2)
           | Correct \<Rightarrow>
               (let s3 = mark_correct w needed_correct s2
                in Next True (s3\<lparr>position := position s3 + 1\<rparr>))
           | Incorrect \<Rightarrow>
               (let s3 = mark_incorrect w s2
                in Next False (s3\<lparr>position := position s3 + 1\<rparr>))))"

section \<open>The quiz: the pending repeats, once the queue is empty\<close>

text \<open>
  \<^verbatim>\<open>pending = [(w, streak) for w, streak, _ in repeat_words.values()]; repeat_words.clear()\<close>
\<close>

definition begin_round :: "quiz_state \<Rightarrow> quiz_state" where
  "begin_round s =
     s\<lparr>pending := map (\<lambda>(k, (w, streak, insert_pos)). (w, streak)) (repeat_words s),
       repeat_words := []\<rparr>"

definition drain_correct :: "word \<Rightarrow> int \<Rightarrow> quiz_state \<Rightarrow> quiz_state" where
  "drain_correct w streak_needed s =
     (let s1 = save_result w True (s\<lparr>correct_count := correct_count s + 1\<rparr>)
      in if streak_needed > 1 then
           s1\<lparr>repeat_words := dict_set (pinyin w) (w, streak_needed - 1, 0) (repeat_words s1)\<rparr>
         else s1)"

definition drain_incorrect :: "word \<Rightarrow> quiz_state \<Rightarrow> quiz_state" where
  "drain_incorrect w s =
     (let s1 = save_result w False (s\<lparr>incorrect_count := incorrect_count s + 1\<rparr>)
      in s1\<lparr>repeat_words := dict_set (pinyin w) (w, 2, 0) (repeat_words s1)\<rparr>)"

text \<open>The body of \<^verbatim>\<open>for word, streak_needed in pending\<close>.\<close>

definition drain_item :: "bool \<Rightarrow> word \<Rightarrow> int \<Rightarrow> quiz_state \<Rightarrow> (bool, quiz_state) outcome" where
  "drain_item unix w streak_needed s =
     (case await_judgement unix (now s) (stdin s) of
        None \<Rightarrow> Blocked s
      | Some (j, t, rest) \<Rightarrow>
          (let s2 = s\<lparr>now := t, stdin := rest\<rparr> in
           case j of
             QuitSession \<Rightarrow> Ended (show_final_score False s2)
           | Correct \<Rightarrow> Next True (drain_correct w streak_needed s2)
           | Incorrect \<Rightarrow> Next False (drain_incorrect w s2)))"

lemma stdin_add_due_repeats [simp]: "stdin (add_due_repeats s) = stdin s"
  by (simp add: add_due_repeats_def Let_def split: prod.splits)

lemma stdin_mark_correct [simp]: "stdin (mark_correct w n s) = stdin s"
  by (simp add: mark_correct_def save_result_def Let_def split: prod.splits)

lemma stdin_mark_incorrect [simp]: "stdin (mark_incorrect w s) = stdin s"
  by (simp add: mark_incorrect_def save_result_def Let_def split: prod.splits)

lemma stdin_drain_correct [simp]: "stdin (drain_correct w n s) = stdin s"
  by (simp add: drain_correct_def save_result_def Let_def)

lemma stdin_drain_incorrect [simp]: "stdin (drain_incorrect w s) = stdin s"
  by (simp add: drain_incorrect_def save_result_def Let_def)

lemma main_iteration_shorter:
  "main_iteration unix w n s = Next c s' \<Longrightarrow> length (stdin s') < length (stdin s)"
  by (auto simp: main_iteration_def Let_def split: option.splits judgement.splits
      dest!: await_judgement_shorter)

lemma drain_item_shorter:
  "drain_item unix w n s = Next c s' \<Longrightarrow> length (stdin s') < length (stdin s)"
  by (auto simp: drain_item_def Let_def split: option.splits judgement.splits
      dest!: await_judgement_shorter)

text \<open>
  The last phase,
  \<^verbatim>\<open>while repeat_words: pending = ...; repeat_words.clear(); for ... in pending: ...\<close>,
  and then "Quiz complete".
\<close>

function drain :: "bool \<Rightarrow> quiz_state \<Rightarrow> (bool, quiz_state) outcome" where
  "drain unix s =
     (case pending s of
        (w, streak_needed) # ps \<Rightarrow>
          (case drain_item unix w streak_needed (s\<lparr>pending := ps\<rparr>) of
             Next c s' \<Rightarrow> drain unix s'
           | Blocked b \<Rightarrow> Blocked s
           | Ended e \<Rightarrow> Ended e)
      | [] \<Rightarrow>
          if repeat_words s \<noteq> [] then drain unix (begin_round s)
          else Ended (show_final_score True s))"
  by pat_completeness auto
termination
  by (relation "measure (\<lambda>(unix, s). 2 * length (stdin s) + (if pending s = [] then 1 else 0))")
    (auto simp: begin_round_def dest!: drain_item_shorter)

declare drain.simps [simp del]

text \<open>The main loop \<^verbatim>\<open>while queue\<close>, and what follows it.\<close>

function main_loop :: "bool \<Rightarrow> quiz_state \<Rightarrow> (bool, quiz_state) outcome" where
  "main_loop unix s =
     (case queue s of
        [] \<Rightarrow> drain unix s
      | (w, needed_correct) # rest \<Rightarrow>
          (case main_iteration unix w needed_correct (s\<lparr>queue := rest\<rparr>) of
             Next c s' \<Rightarrow> main_loop unix s'
           | Blocked b \<Rightarrow> Blocked s
           | Ended e \<Rightarrow> Ended e))"
  by pat_completeness auto
termination
proof (relation "measure (\<lambda>(unix, s). length (stdin s))", goal_cases)
  case 1
  show ?case by simp
next
  case 2
  then show ?case by (auto dest!: main_iteration_shorter)
qed

declare main_loop.simps [simp del]

section \<open>The quiz: the session\<close>

text \<open>
  \<open>get_mistake_words\<close>. The cutoff \<open>datetime.min\<close> of the last branch lies before every
  timestamp: \<open>None\<close>.
\<close>

definition get_mistake_words :: "word list \<Rightarrow> answer_row list \<Rightarrow> string \<Rightarrow> clock \<Rightarrow> word list" where
  "get_mistake_words words results time_period clk =
     (let cutoff =
            (if time_period = ''day'' then Some (clk - 86400000)
             else if time_period = ''week'' then Some (clk - 604800000)
             else if time_period = ''month'' then Some (clk - 2592000000)
             else None);
          mistake_chars =
            set (map res_character
              (filter (\<lambda>r. (case cutoff of None \<Rightarrow> True | Some c \<Rightarrow> res_timestamp r \<ge> c)
                  \<and> \<not> res_correct r) results))
      in filter (\<lambda>w. character w \<in> mistake_chars) words)"

text \<open>
  "Filter words by selected groups or mistakes", the same in \<open>run_quiz\<close> and in
  \<open>run_practice\<close>. \<open>mistake_mode\<close> and \<open>all_results\<close> default to Python's \<open>None\<close>, and
  an empty string or list counts as false.
\<close>

definition select_words :: "word list \<Rightarrow> int list \<Rightarrow> string option \<Rightarrow> answer_row list option \<Rightarrow> clock \<Rightarrow> word list" where
  "select_words words groups mistake_mode all_results clk =
     (let by_group = (if 0 \<in> set groups then words else filter (\<lambda>w. group w \<in> set groups) words)
      in case mistake_mode of
           None \<Rightarrow> by_group
         | Some m \<Rightarrow>
             (case all_results of
                None \<Rightarrow> by_group
              | Some rs \<Rightarrow>
                  if m \<noteq> [] \<and> rs \<noteq> [] then get_mistake_words words rs m clk else by_group))"

text \<open>The state at the head of the main loop, the first time: shuffled, all counters 0.\<close>

definition start_state :: "word list \<Rightarrow> int list \<Rightarrow> nat list \<Rightarrow> clock \<Rightarrow> input \<Rightarrow> quiz_state" where
  "start_state quiz_words groups rs clk inp =
     (let (shuffled, rs') = shuffle rs quiz_words
      in \<lparr>now = clk, stdin = inp, effects = [], session_id = clk, selected_groups = groups,
          queue = map (\<lambda>w. (w, 0)) shuffled, repeat_words = [], pending = [], position = 0,
          correct_count = 0, incorrect_count = 0, rng = rs'\<rparr>)"

definition quiz_session :: "bool \<Rightarrow> word list \<Rightarrow> int list \<Rightarrow> nat list \<Rightarrow> clock \<Rightarrow> input \<Rightarrow> (bool, quiz_state) outcome" where
  "quiz_session unix quiz_words groups rs clk inp =
     main_loop unix (start_state quiz_words groups rs clk inp)"

text \<open>\<open>run_quiz\<close>: \<open>None\<close> when there is no word to ask, and so no session.\<close>

definition run_quiz :: "bool \<Rightarrow> word list \<Rightarrow> int list \<Rightarrow> string option \<Rightarrow> answer_row list option \<Rightarrow> nat list \<Rightarrow> clock \<Rightarrow> input \<Rightarrow> (bool, quiz_state) outcome option" where
  "run_quiz unix words groups mistake_mode all_results rs clk inp =
     (let (t0, inp0) = flush_stdin unix clk inp;
          quiz_words = select_words words groups mistake_mode all_results t0
      in if quiz_words = [] then None
         else Some (quiz_session unix quiz_words groups rs t0 inp0))"

text \<open>
  The states at the heads of the loops, and the steps between them: a card of the main
  loop, the start of a round over the pending repeats, a card of such a round.
\<close>

inductive quiz_step :: "bool \<Rightarrow> quiz_state \<Rightarrow> quiz_state \<Rightarrow> bool" for unix where
  card: "queue s = (w, n) # rest \<Longrightarrow>
     main_iteration unix w n (s\<lparr>queue := rest\<rparr>) = Next c s' \<Longrightarrow> quiz_step unix s s'"
| round: "queue s = [] \<Longrightarrow> pending s = [] \<Longrightarrow> repeat_words s \<noteq> [] \<Longrightarrow>
     quiz_step unix s (begin_round s)"
| repeat: "queue s = [] \<Longrightarrow> pending s = (w, n) # ps \<Longrightarrow>
     drain_item unix w n (s\<lparr>pending := ps\<rparr>) = Next c s' \<Longrightarrow> quiz_step unix s s'"

inductive reachable :: "bool \<Rightarrow> word list \<Rightarrow> quiz_state \<Rightarrow> bool" for unix quiz_words where
  start: "reachable unix quiz_words (start_state quiz_words groups rs clk inp)"
| step: "reachable unix quiz_words s \<Longrightarrow> quiz_step unix s s' \<Longrightarrow> reachable unix quiz_words s'"

text \<open>A state that comes after another, in the same session.\<close>

inductive later :: "bool \<Rightarrow> quiz_state \<Rightarrow> quiz_state \<Rightarrow> bool" for unix s where
  same: "later unix s s"
| step: "later unix s t \<Longrightarrow> quiz_step unix t t' \<Longrightarrow> later unix s t'"

text \<open>The card a state is about to show: the head of the queue, or of the round.\<close>

definition presenting :: "quiz_state \<Rightarrow> word option" where
  "presenting s =
     (case queue s of
        (w, n) # rest \<Rightarrow> Some w
      | [] \<Rightarrow> (case pending s of (w, n) # ps \<Rightarrow> Some w | [] \<Rightarrow> None))"

section \<open>Practice\<close>

datatype nav = Forward | GoBack | QuitPractice

text \<open>
  The two \<^verbatim>\<open>while True\<close> loops of \<open>run_practice\<close> read the keys in the same way: space
  goes on, \<open>b\<close> goes back when \<open>i > 0\<close>, a confirmed quit leaves.
\<close>

function practice_keys :: "bool \<Rightarrow> int \<Rightarrow> clock \<Rightarrow> input \<Rightarrow> (nav \<times> clock \<times> input) option" where
  "practice_keys unix i t0 inp =
     (case get_key unix t0 inp of
        None \<Rightarrow> None
      | Some (None, t, rest) \<Rightarrow> practice_keys unix i t rest
      | Some (Some key, t, rest) \<Rightarrow>
          if key = '' '' then Some (Forward, t, rest)
          else if py_lower key = ''b'' \<and> i > 0 then Some (GoBack, t, rest)
          else (case check_for_quit unix (Some key) t rest of
                  None \<Rightarrow> None
                | Some (q, t', rest') \<Rightarrow>
                    if q then Some (QuitPractice, t', rest')
                    else practice_keys unix i t' rest'))"
  by pat_completeness auto
termination
proof (relation "measure (\<lambda>(unix, i, t0, inp). length inp)", goal_cases)
  case 1
  show ?case by simp
next
  case 2
  then show ?case by (auto dest: get_key_shorter)
next
  case 3
  then show ?case
    by (auto dest!: get_key_shorter check_for_quit_length)
qed

declare practice_keys.simps [simp del]

lemma practice_keys_shorter:
  "practice_keys unix i t0 inp = Some (r, t, rest) \<Longrightarrow> length rest < length inp"
proof (induction inp arbitrary: t0 rule: length_induct)
  case (1 inp)
  have IH: "\<And>r1 n. length r1 < length inp \<Longrightarrow>
      practice_keys unix i n r1 = Some (r, t, rest) \<Longrightarrow> length rest < length inp"
    using "1.IH" by (meson less_trans)
  have IH': "\<And>r1 r2 n. length r1 < length inp \<Longrightarrow> length r2 \<le> length r1 \<Longrightarrow>
      practice_keys unix i n r2 = Some (r, t, rest) \<Longrightarrow> length rest < length inp"
    using IH by (meson le_less_trans)
  from "1.prems" show ?case
    by (subst (asm) practice_keys.simps)
      (auto simp: Let_def split: if_splits option.splits
        dest!: get_key_shorter check_for_quit_length; blast intro: IH IH')
qed

text \<open>
  The locals of \<open>run_practice\<close>: the cursor \<open>i\<close>, \<open>total_words\<close> and \<open>start_time\<close>. The
  cards themselves are only drawn.
\<close>

record practice_state = session +
  cursor :: int
  total_words :: int
  start_time :: clock

definition save_practice_time :: "int \<Rightarrow> practice_state \<Rightarrow> practice_state" where
  "save_practice_time duration s =
     s\<lparr>effects := effects s @ [SavePracticeTime (session_id s) duration (selected_groups s)]\<rparr>"

text \<open>The answer step of a card: the second \<^verbatim>\<open>while True\<close>.\<close>

definition practice_answer :: "bool \<Rightarrow> practice_state \<Rightarrow> (unit, practice_state) outcome" where
  "practice_answer unix s =
     (case practice_keys unix (cursor s) (now s) (stdin s) of
        None \<Rightarrow> Blocked s
      | Some (k, t, rest) \<Rightarrow>
          (let s1 = s\<lparr>now := t, stdin := rest\<rparr> in
           case k of
             Forward \<Rightarrow> Next () (s1\<lparr>cursor := cursor s1 + 1\<rparr>)
           | GoBack \<Rightarrow> Next () (s1\<lparr>cursor := cursor s1 - 1\<rparr>)
           | QuitPractice \<Rightarrow> Ended (save_practice_time (now s1 - start_time s1) s1)))"

text \<open>
  The body of \<^verbatim>\<open>while i < total_words\<close>: the question step, the test
  \<^verbatim>\<open>if i < current_num - 1: continue\<close>, the answer step.
\<close>

definition practice_iteration :: "bool \<Rightarrow> practice_state \<Rightarrow> (unit, practice_state) outcome" where
  "practice_iteration unix s =
     (let current_num = cursor s + 1 in
      case practice_keys unix (cursor s) (now s) (stdin s) of
        None \<Rightarrow> Blocked s
      | Some (k, t, rest) \<Rightarrow>
          (let s1 = s\<lparr>now := t, stdin := rest\<rparr> in
           if k = QuitPractice then Ended (save_practice_time (now s1 - start_time s1) s1)
           else
             (let s2 = (if k = GoBack then s1\<lparr>cursor := cursor s1 - 1\<rparr> else s1) in
              if cursor s2 < current_num - 1 then Next () s2
              else practice_answer unix s2)))"

lemma practice_iteration_shorter:
  "practice_iteration unix s = Next u s' \<Longrightarrow> length (stdin s') < length (stdin s)"
  by (auto simp: practice_iteration_def practice_answer_def Let_def
      split: option.splits nav.splits if_splits dest!: practice_keys_shorter)

text \<open>The loop, and "Practice complete" after it.\<close>

function practice_loop :: "bool \<Rightarrow> practice_state \<Rightarrow> (unit, practice_state) outcome" where
  "practice_loop unix s =
     (if cursor s < total_words s then
        (case practice_iteration unix s of
           Next u s' \<Rightarrow> practice_loop unix s'
         | Blocked b \<Rightarrow> Blocked b
         | Ended e \<Rightarrow> Ended e)
      else Ended (save_practice_time (now s - start_time s) s))"
  by pat_completeness auto
termination
  by (relation "measure (\<lambda>(unix, s). length (stdin s))")
    (auto dest!: practice_iteration_shorter)

declare practice_loop.simps [simp del]

definition practice_start :: "int list \<Rightarrow> int \<Rightarrow> clock \<Rightarrow> input \<Rightarrow> practice_state" where
  "practice_start groups n clk inp =
     \<lparr>now = clk, stdin = inp, effects = [], session_id = clk, selected_groups = groups,
      cursor = 0, total_words = n, start_time = clk\<rparr>"

text \<open>
  \<open>run_practice\<close>: \<open>None\<close> when there is no word to show. The words are sorted by group,
  and within a group they stay in the order of the file.
\<close>

definition run_practice :: "bool \<Rightarrow> word list \<Rightarrow> int list \<Rightarrow> string option \<Rightarrow> answer_row list option \<Rightarrow> clock \<Rightarrow> input \<Rightarrow> (unit, practice_state) outcome option" where
  "run_practice unix words groups mistake_mode all_results clk inp =
     (let (t0, inp0) = flush_stdin unix clk inp;
          practice_words = sort_key group (select_words words groups mistake_mode all_results t0)
      in if practice_words = [] then None
         else Some (practice_loop unix
                (practice_start groups (int (length practice_words)) t0 inp0)))"

text \<open>
  The results of calling \<open>get_key\<close> again and again, each with the time at which the
  call returns, until the input is used up.
\<close>

function decoder_results :: "bool \<Rightarrow> clock \<Rightarrow> input \<Rightarrow> (string option \<times> clock) list" where
  "decoder_results unix t0 inp =
     (case get_key unix t0 inp of
        None \<Rightarrow> []
      | Some (k, t, rest) \<Rightarrow> (k, t) # decoder_results unix t rest)"
  by pat_completeness auto
termination
  by (relation "measure (\<lambda>(unix, t0, inp). length inp)") (auto dest: get_key_shorter)

declare decoder_results.simps [simp del]

text \<open>What a run of results appends to the buffer of \<open>check_for_quit\<close>.\<close>

definition typed :: "(string option \<times> clock) list \<Rightarrow> string" where
  "typed evs = concat (map (\<lambda>(k, t). case k of None \<Rightarrow> [] | Some key \<Rightarrow> py_lower key) evs)"

section \<open>Properties of a state of the quiz\<close>

text \<open>The streaks a state holds: 0, 1 or 2 in the queue, 1 or 2 among the repeats.\<close>

definition streaks_ok :: "quiz_state \<Rightarrow> bool" where
  "streaks_ok s \<longleftrightarrow>
     (\<forall>(w, n) \<in> set (queue s). n \<in> {0, 1, 2}) \<and>
     (\<forall>(k, (w, n, d)) \<in> set (repeat_words s). n \<in> {1, 2}) \<and>
     (\<forall>(w, n) \<in> set (pending s). n \<in> {1, 2})"

text \<open>Every item of \<open>repeat_words\<close> sits under the \<open>pinyin\<close> of its word.\<close>

definition keyed :: "quiz_state \<Rightarrow> bool" where
  "keyed s \<longleftrightarrow> (\<forall>(k, (w, n, d)) \<in> set (repeat_words s). k = pinyin w)"

text \<open>
  The identities a state still holds, each as often as it occurs: in the queue, among
  the repeats, and in what is left of the round.
\<close>

definition live :: "quiz_state \<Rightarrow> string multiset" where
  "live s =
     mset (map (pinyin \<circ> fst) (queue s)) + mset (map fst (repeat_words s)) +
     mset (map (pinyin \<circ> fst) (pending s))"

text \<open>The words due at a position, as \<open>words_to_insert\<close> lists them.\<close>

definition due_words :: "quiz_state \<Rightarrow> (word \<times> int) list" where
  "due_words s =
     map (\<lambda>(k, (rw, streak_needed, insert_pos)). (rw, streak_needed))
       (filter (is_due (position s)) (repeat_words s))"

definition not_due :: "quiz_state \<Rightarrow> (string \<times> (word \<times> int \<times> int)) list" where
  "not_due s = filter (\<lambda>e. \<not> is_due (position s) e) (repeat_words s)"

text \<open>
  While the queue lasts, identity \<open>k\<close> is held back until position \<open>d\<close>: where it
  stands in the queue the position has reached \<open>d\<close>, and where it waits among the
  repeats it is due at \<open>d\<close> or later.
\<close>

definition held_back :: "string \<Rightarrow> int \<Rightarrow> quiz_state \<Rightarrow> bool" where
  "held_back k d t \<longleftrightarrow>
     (queue t \<noteq> [] \<longrightarrow>
        (\<forall>(w, n) \<in> set (queue t). pinyin w = k \<longrightarrow> d \<le> position t) \<and>
        (\<forall>(k', (w, n, e)) \<in> set (repeat_words t). k' = k \<longrightarrow> d \<le> e))"

text \<open>
  How often a card with a required streak is still shown when every answer from now on
  is correct, and the number of cards a state has still to show in that case.
\<close>

definition visits :: "int \<Rightarrow> nat" where
  "visits n = (if n > 1 then nat n else 1)"

definition cards_left :: "quiz_state \<Rightarrow> nat" where
  "cards_left s =
     sum_list (map (\<lambda>(w, n). visits n) (pending s)) +
     sum_list (map (\<lambda>(k, (w, n, d)). visits n) (repeat_words s))"

text \<open>Keys for \<open>n\<close> rounds of one card judged incorrect: space, then \<open>x\<close>.\<close>

definition wrong_rounds :: "nat \<Rightarrow> input" where
  "wrong_rounds n = concat (replicate n [(0, CHR '' ''), (0, CHR ''x'')])"

text \<open>An effect that is a row for a judged card, with the given judgement.\<close>

fun saved :: "bool \<Rightarrow> effect \<Rightarrow> bool" where
  "saved b (SaveResult w c sid g) = (c = b)"
| "saved b (SavePracticeTime sid d g) = False"
| "saved b (ShowFinalScore c i f) = False"

text \<open>The effects that write to the results file: all but the printing of the score.\<close>

fun writes_sink :: "effect \<Rightarrow> bool" where
  "writes_sink (SaveResult w c sid g) = True"
| "writes_sink (SavePracticeTime sid d g) = True"
| "writes_sink (ShowFinalScore c i f) = False"

text \<open>
  What a quiz that ended in \<open>s'\<close> has done since \<open>s\<close>: a row for each card judged,
  then the final score once, with the counts as they stand.
\<close>

definition reported :: "quiz_state \<Rightarrow> quiz_state \<Rightarrow> bool" where
  "reported s s' \<longleftrightarrow>
     (\<exists>rows f.
        effects s' = effects s @ rows @
          [ShowFinalScore (correct_count s') (incorrect_count s') f] \<and>
        (\<forall>e \<in> set rows. \<exists>w b. e = SaveResult w b (session_id s) (selected_groups s)) \<and>
        correct_count s' = correct_count s + int (length (filter (saved True) rows)) \<and>
        incorrect_count s' = incorrect_count s + int (length (filter (saved False) rows)))"

text \<open>The effects of a quiz that has ended; \<open>None\<close> for one that has not.\<close>

fun ended_effects :: "(bool, quiz_state) outcome \<Rightarrow> effect list option" where
  "ended_effects (Ended s) = Some (effects s)"
| "ended_effects (Blocked s) = None"
| "ended_effects (Next c s) = None"

section \<open>A small deck\<close>

text \<open>Words and states for concrete runs: a word is told by its \<open>pinyin\<close>.\<close>

definition demo_word :: "string \<Rightarrow> string \<Rightarrow> word" where
  "demo_word p c = \<lparr>pinyin = p, meaning = ''-'', tone = ''1'', group = 1, character = c\<rparr>"

text \<open>
  One card, \<open>ma\<close>, missed at position 0, with an empty random source (every draw is the
  bottom of its range): the state at the head of the loop after it.
\<close>

definition demo_missed :: "input \<Rightarrow> quiz_state" where
  "demo_missed inp =
     \<lparr>now = 2, stdin = inp,
      effects = [SaveResult (demo_word ''ma'' ''A'') False 0 [0]],
      session_id = 0, selected_groups = [0],
      queue = [], repeat_words = [(''ma'', (demo_word ''ma'' ''A'', 2, 5))], pending = [],
      position = 1, correct_count = 0, incorrect_count = 1, rng = []\<rparr>"

text \<open>The same card known at once: the state after it.\<close>

definition demo_known :: "input \<Rightarrow> quiz_state" where
  "demo_known inp =
     \<lparr>now = 2, stdin = inp,
      effects = [SaveResult (demo_word ''ma'' ''A'') True 0 [0]],
      session_id = 0, selected_groups = [0],
      queue = [], repeat_words = [], pending = [],
      position = 1, correct_count = 1, incorrect_count = 0, rng = []\<rparr>"

text \<open>
  Two cards with the same \<open>pinyin\<close>, both missed: the state after the first, and the
  state after the second.
\<close>

definition demo_twins_1 :: "input \<Rightarrow> quiz_state" where
  "demo_twins_1 inp =
     \<lparr>now = 2, stdin = inp,
      effects = [SaveResult (demo_word ''shi'' ''A'') False 0 [0]],
      session_id = 0, selected_groups = [0],
      queue = [(demo_word ''shi'' ''B'', 0)],
      repeat_words = [(''shi'', (demo_word ''shi'' ''A'', 2, 5))], pending = [],
      position = 1, correct_count = 0, incorrect_count = 1, rng = []\<rparr>"

definition demo_twins_2 :: "input \<Rightarrow> quiz_state" where
  "demo_twins_2 inp =
     \<lparr>now = 4, stdin = inp,
      effects = [SaveResult (demo_word ''shi'' ''A'') False 0 [0],
                 SaveResult (demo_word ''shi'' ''B'') False 0 [0]],
      session_id = 0, selected_groups = [0],
      queue = [],
      repeat_words = [(''shi'', (demo_word ''shi'' ''B'', 2, 6))], pending = [],
      position = 2, correct_count = 0, incorrect_count = 2, rng = []\<rparr>"

section \<open>Facts about the decoder\<close>

lemma py_in_single: "py_in [c] t \<longleftrightarrow> c \<in> set t"
  by (induction t) (auto simp: py_in_def sublist_Cons_right)

lemma py_in_empty: "py_in [] t"
  by (simp add: py_in_def)

lemma allowed_keys_printable:
  "c \<in> set allowed_keys \<Longrightarrow> 32 < (of_char c :: nat) \<and> (of_char c :: nat) < 128"
  by (auto simp: allowed_keys_def)

lemma get_key_unix:
  "get_key True t0 ((a, b) # rest) =
     (if b = CHR 0x1B then
        Some (None, drain_while 150 (fst (drain_while 150 (fst (drain_while 150 (max t0 a) rest))
          (snd (drain_while 150 (max t0 a) rest))))
          (snd (drain_while 150 (fst (drain_while 150 (max t0 a) rest))
          (snd (drain_while 150 (max t0 a) rest)))))
      else if (of_char b :: nat) < 32 then Some (None, drain_while 50 (max t0 a) rest)
      else if b = CHR '' '' \<or> b \<in> set allowed_keys then Some (Some [b], max t0 a, rest)
      else Some (None, max t0 a, rest))"
  by (auto simp: get_key_def py_in_single Let_def split: prod.splits)

lemma get_key_windows:
  "get_key False t0 ((a, b) # rest) =
     (if (of_char b :: nat) < 128 then
        (if b = CHR '' '' \<or> b \<in> set allowed_keys then Some (Some [b], max t0 a, rest)
         else Some (None, max t0 a, rest))
      else Some (Some [], max t0 a, rest))"
  by (auto simp: get_key_def py_in_single py_in_empty decode_ignore_def Let_def)

lemma get_key_space [simp]:
  "get_key unix t0 ((a, CHR '' '') # rest) = Some (Some '' '', max t0 a, rest)"
  by (cases unix) (simp_all add: get_key_unix get_key_windows)

lemma get_key_allowed:
  assumes "c \<in> set allowed_keys"
  shows "get_key unix t0 ((a, c) # rest) = Some (Some [c], max t0 a, rest)"
proof -
  from allowed_keys_printable [OF assms] have "32 < (of_char c :: nat)" "(of_char c :: nat) < 128"
    by simp_all
  moreover from this have "c \<noteq> CHR 0x1B" by auto
  ultimately show ?thesis
    using assms by (cases unix) (simp_all add: get_key_unix get_key_windows)
qed


text \<open>
  On Unix, and for ASCII bytes on Windows, the first byte read is the key exactly when
  it is the space or one of the listed characters, and is dropped otherwise.
\<close>

lemma get_key_unix_recognised:
  "map_option fst (get_key True t0 ((a, b) # rest)) =
     Some (if b = CHR '' '' \<or> b \<in> set allowed_keys then Some [b] else None)"
  by (auto simp: get_key_unix split: prod.splits dest: allowed_keys_printable)

lemma get_key_windows_ascii:
  "(of_char b :: nat) < 128 \<Longrightarrow>
   map_option fst (get_key False t0 ((a, b) # rest)) =
     Some (if b = CHR '' '' \<or> b \<in> set allowed_keys then Some [b] else None)"
  by (simp add: get_key_windows)

lemma typed_Nil [simp]: "typed [] = []"
  by (simp add: typed_def)

lemma typed_Cons [simp]:
  "typed ((k, t) # evs) = (case k of None \<Rightarrow> [] | Some key \<Rightarrow> py_lower key) @ typed evs"
  by (simp add: typed_def)

lemma strict_prefix_quit_short:
  "prefix b ''quit'' \<Longrightarrow> b \<noteq> ''quit'' \<Longrightarrow> length b < 4"
  by (auto simp: prefix_Cons)

lemma quit_loop_true_iff:
  assumes "prefix buf ''quit''" and "buf \<noteq> ''quit''"
  shows "map_option fst (quit_loop unix buf D t0 inp) = Some True \<longleftrightarrow>
    (\<exists>pre post. decoder_results unix t0 inp = pre @ post \<and> pre \<noteq> [] \<and>
       buf @ typed pre = ''quit'' \<and> (\<forall>t \<in> set (t0 # map snd (butlast pre)). t < D))"
  using assms
proof (induction inp arbitrary: buf t0 rule: length_induct)
  case (1 inp)
  note short = strict_prefix_quit_short [OF "1.prems"]
  show ?case
  proof (cases "t0 < D")
    case False
    with short show ?thesis by (simp add: quit_loop.simps [of unix buf D t0 inp])
  next
    case guard: True
    show ?thesis
    proof (cases "get_key unix t0 inp")
      case None
      with guard short show ?thesis
        by (simp add: quit_loop.simps [of unix buf D t0 inp] decoder_results.simps [of unix t0 inp])
    next
      case (Some res)
      obtain k t r where res: "res = (k, t, r)" by (cases res)
      have len: "length r < length inp" using Some res by (auto dest: get_key_shorter)
      have dr: "decoder_results unix t0 inp = (k, t) # decoder_results unix t r"
        using Some res by (simp add: decoder_results.simps [of unix t0 inp])
      have split: "\<And>P. (\<exists>pre post. (k, t) # decoder_results unix t r = pre @ post \<and> pre \<noteq> [] \<and> P pre)
          \<longleftrightarrow> (\<exists>pre' post. decoder_results unix t r = pre' @ post \<and> P ((k, t) # pre'))"
        by (auto simp: Cons_eq_append_conv)
      have IH: "\<And>b. prefix b ''quit'' \<Longrightarrow> b \<noteq> ''quit'' \<Longrightarrow>
          map_option fst (quit_loop unix b D t r) = Some True \<longleftrightarrow>
          (\<exists>pre post. decoder_results unix t r = pre @ post \<and> pre \<noteq> [] \<and>
             b @ typed pre = ''quit'' \<and> (\<forall>t' \<in> set (t # map snd (butlast pre)). t' < D))"
        using "1.IH" [rule_format, OF len] by simp
      show ?thesis
      proof (cases k)
        case None
        have lhs: "quit_loop unix buf D t0 inp = quit_loop unix buf D t r"
          using guard short Some res None by (simp add: quit_loop.simps [of unix buf D t0 inp])
        have "(buf @ typed ((k, t) # pre') = ''quit'' \<and>
                (\<forall>t' \<in> set (t0 # map snd (butlast ((k, t) # pre'))). t' < D))
           \<longleftrightarrow> (pre' \<noteq> [] \<and> buf @ typed pre' = ''quit'' \<and>
                (\<forall>t' \<in> set (t # map snd (butlast pre')). t' < D))" for pre'
          using None guard "1.prems"(2) by (cases pre') auto
        then have "(\<exists>pre' post. decoder_results unix t r = pre' @ post \<and>
                buf @ typed ((k, t) # pre') = ''quit'' \<and>
                (\<forall>t' \<in> set (t0 # map snd (butlast ((k, t) # pre'))). t' < D))
           \<longleftrightarrow> (\<exists>pre post. decoder_results unix t r = pre @ post \<and> pre \<noteq> [] \<and>
             buf @ typed pre = ''quit'' \<and> (\<forall>t' \<in> set (t # map snd (butlast pre)). t' < D))"
          by simp
        then show ?thesis
          unfolding lhs dr split [where P = "\<lambda>pre. buf @ typed pre = ''quit'' \<and>
              (\<forall>t \<in> set (t0 # map snd (butlast pre)). t < D)"]
          using IH [OF "1.prems"] by simp
      next
        case key: (Some key)
        let ?b = "buf @ py_lower key"
        consider (complete) "?b = ''quit''" | (diverged) "\<not> prefix ?b ''quit''"
          | (more) "?b \<noteq> ''quit''" "prefix ?b ''quit''"
          by blast
        then show ?thesis
        proof cases
          case complete
          then have L: "map_option fst (quit_loop unix buf D t0 inp) = Some True"
            using guard short Some res key
            by (simp add: quit_loop.simps [of unix buf D t0 inp] Let_def)
          have "decoder_results unix t r = [] @ decoder_results unix t r \<and>
              buf @ typed ((k, t) # []) = ''quit'' \<and>
              (\<forall>t' \<in> set (t0 # map snd (butlast ((k, t) # []))). t' < D)"
            using complete key guard by simp
          then have R: "\<exists>pre' post. decoder_results unix t r = pre' @ post \<and>
              buf @ typed ((k, t) # pre') = ''quit'' \<and>
              (\<forall>t' \<in> set (t0 # map snd (butlast ((k, t) # pre'))). t' < D)"
            by blast
          from L R show ?thesis
            unfolding dr split [where P = "\<lambda>pre. buf @ typed pre = ''quit'' \<and>
              (\<forall>t \<in> set (t0 # map snd (butlast pre)). t < D)"]
            by blast
        next
          case diverged
          then have "?b \<noteq> ''quit''" by auto
          with diverged have "quit_loop unix buf D t0 inp = Some (False, t, r)"
            using guard short Some res key
            by (simp add: quit_loop.simps [of unix buf D t0 inp] Let_def)
          moreover have "\<not> (\<exists>pre' post. decoder_results unix t r = pre' @ post \<and>
                buf @ typed ((k, t) # pre') = ''quit'' \<and>
                (\<forall>t' \<in> set (t0 # map snd (butlast ((k, t) # pre'))). t' < D))"
          proof
            assume "\<exists>pre' post. decoder_results unix t r = pre' @ post \<and>
                buf @ typed ((k, t) # pre') = ''quit'' \<and>
                (\<forall>t' \<in> set (t0 # map snd (butlast ((k, t) # pre'))). t' < D)"
            then obtain pre' where "?b @ typed pre' = ''quit''" using key by auto
            then have "prefix ?b ''quit''" by (intro prefixI [where zs = "typed pre'"]) simp
            with diverged show False by simp
          qed
          ultimately show ?thesis
            unfolding dr split [where P = "\<lambda>pre. buf @ typed pre = ''quit'' \<and>
              (\<forall>t \<in> set (t0 # map snd (butlast pre)). t < D)"]
            by simp
        next
          case more
          have lhs: "quit_loop unix buf D t0 inp = quit_loop unix ?b D t r"
            using guard short Some res key more
            by (simp add: quit_loop.simps [of unix buf D t0 inp] Let_def)
          have "(buf @ typed ((k, t) # pre') = ''quit'' \<and>
                (\<forall>t' \<in> set (t0 # map snd (butlast ((k, t) # pre'))). t' < D))
           \<longleftrightarrow> (pre' \<noteq> [] \<and> ?b @ typed pre' = ''quit'' \<and>
                (\<forall>t' \<in> set (t # map snd (butlast pre')). t' < D))" for pre'
            using key guard more(1) by (cases pre') auto
          then have "(\<exists>pre' post. decoder_results unix t r = pre' @ post \<and>
                buf @ typed ((k, t) # pre') = ''quit'' \<and>
                (\<forall>t' \<in> set (t0 # map snd (butlast ((k, t) # pre'))). t' < D))
           \<longleftrightarrow> (\<exists>pre post. decoder_results unix t r = pre @ post \<and> pre \<noteq> [] \<and>
             ?b @ typed pre = ''quit'' \<and> (\<forall>t' \<in> set (t # map snd (butlast pre)). t' < D))"
            by simp
          then show ?thesis
            unfolding lhs dr split [where P = "\<lambda>pre. buf @ typed pre = ''quit'' \<and>
              (\<forall>t \<in> set (t0 # map snd (butlast pre)). t < D)"]
            using IH [OF more(2,1)] by simp
        qed
      qed
    qed
  qed
qed

lemma py_lower_q [simp]: "py_lower ''q'' = ''q''" "py_lower ''Q'' = ''q''"
  by (simp_all add: py_lower_def lower_char_def)

lemma quit_in_time:
  "check_for_quit True (Some ''q'') 0 [(100, CHR ''u''), (200, CHR ''i''), (300, CHR ''t'')]
     = Some (True, 300, [])"
  by (simp add: check_for_quit_def quit_loop.simps get_key_allowed allowed_keys_def
      py_lower_def lower_char_def Let_def)

text \<open>
  What \<open>check_for_quit\<close> computes when it is entered with \<open>q\<close> or \<open>Q\<close>. It reads
  the clock only at the head of its loop, before each call of the decoder, and then
  waits for the key as long as it takes. So it returns true exactly when the results of
  the decoder begin with a run that completes the buffer to \<open>quit\<close> (results that are
  \<open>None\<close> append nothing) and every call of that run started before the deadline of
  one second; when the key that completes the word arrives is not tested. It returns
  false at once, reading nothing more, on the first key after which the buffer is no
  prefix of \<open>quit\<close>, and it returns false without reading when the deadline has
  passed at the head of the loop.
\<close>

lemma check_for_quit_accepts:
  assumes "k = ''q'' \<or> k = ''Q''"
  shows "(map_option fst (check_for_quit unix (Some k) t0 inp) = Some True \<longleftrightarrow>
           (\<exists>pre post. decoder_results unix t0 inp = pre @ post \<and> pre \<noteq> [] \<and>
              ''q'' @ typed pre = ''quit'' \<and>
              (\<forall>t \<in> set (t0 # map snd (butlast pre)). t < t0 + 1000)))
       \<and> (\<forall>buf D t1 inp1 key t rest.
             length buf < 4 \<and> t1 < D \<and> get_key unix t1 inp1 = Some (Some key, t, rest) \<and>
             \<not> prefix (buf @ py_lower key) ''quit''
             \<longrightarrow> quit_loop unix buf D t1 inp1 = Some (False, t, rest))
       \<and> (\<forall>buf D t1 inp1. D \<le> t1 \<longrightarrow> quit_loop unix buf D t1 inp1 = Some (False, t1, inp1))"
proof (intro conjI allI impI)
  have "check_for_quit unix (Some k) t0 inp = quit_loop unix ''q'' (t0 + 1000) t0 inp"
    using assms by (auto simp: check_for_quit_def)
  then show "map_option fst (check_for_quit unix (Some k) t0 inp) = Some True \<longleftrightarrow>
           (\<exists>pre post. decoder_results unix t0 inp = pre @ post \<and> pre \<noteq> [] \<and>
              ''q'' @ typed pre = ''quit'' \<and>
              (\<forall>t \<in> set (t0 # map snd (butlast pre)). t < t0 + 1000))"
    using quit_loop_true_iff [of "''q''" unix "t0 + 1000" t0 inp] by simp
next
  fix buf D t1 inp1 key t rest
  assume a: "length buf < 4 \<and> t1 < D \<and> get_key unix t1 inp1 = Some (Some key, t, rest) \<and>
             \<not> prefix (buf @ py_lower key) ''quit''"
  then have "buf @ py_lower key \<noteq> ''quit''" by auto
  with a show "quit_loop unix buf D t1 inp1 = Some (False, t, rest)"
    by (simp add: quit_loop.simps [of unix buf D t1 inp1] Let_def)
next
  fix buf D t1 inp1
  assume "D \<le> (t1 :: int)"
  then show "quit_loop unix buf D t1 inp1 = Some (False, t1, inp1)"
    by (simp add: quit_loop.simps [of unix buf D t1 inp1])
qed

text \<open>
  Three runs: \<open>u\<close>, \<open>i\<close>, \<open>t\<close> in time; an \<open>x\<close> after \<open>qu\<close>; the deadline
  reached at the head of the loop.
\<close>

lemma check_for_quit_examples:
  "(''q'' = ''q'' \<or> ''q'' = ''Q'') \<and>
   (\<exists>pre post. decoder_results True 0 [(100, CHR ''u''), (200, CHR ''i''), (300, CHR ''t'')]
        = pre @ post \<and> pre \<noteq> [] \<and> ''q'' @ typed pre = ''quit'' \<and>
      (\<forall>t \<in> set (0 # map snd (butlast pre)). t < 0 + 1000)) \<and>
   quit_loop True ''qu'' 1000 0 [(5, CHR ''x'')] = Some (False, 5, []) \<and>
   quit_loop True ''qu'' 1000 1000 [(5, CHR ''i'')] = Some (False, 1000, [(5, CHR ''i'')])"
proof -
  have k: "''q'' = ''q'' \<or> ''q'' = ''Q''" by simp
  note inst = check_for_quit_accepts [OF k, of True 0
      "[(100, CHR ''u''), (200, CHR ''i''), (300, CHR ''t'')]"]
  have "map_option fst (check_for_quit True (Some ''q'') 0
      [(100, CHR ''u''), (200, CHR ''i''), (300, CHR ''t'')]) = Some True"
    by (simp add: quit_in_time)
  with inst have accepted: "\<exists>pre post.
      decoder_results True 0 [(100, CHR ''u''), (200, CHR ''i''), (300, CHR ''t'')]
        = pre @ post \<and> pre \<noteq> [] \<and> ''q'' @ typed pre = ''quit'' \<and>
      (\<forall>t \<in> set (0 # map snd (butlast pre)). t < 0 + 1000)"
    by blast
  have "length ''qu'' < 4 \<and> (0 :: int) < 1000 \<and>
      get_key True 0 [(5, CHR ''x'')] = Some (Some ''x'', 5, []) \<and>
      \<not> prefix (''qu'' @ py_lower ''x'') ''quit''"
    by (simp add: get_key_allowed allowed_keys_def py_lower_def lower_char_def)
  with inst have diverged: "quit_loop True ''qu'' 1000 0 [(5, CHR ''x'')] = Some (False, 5, [])"
    by blast
  have "(1000 :: int) \<le> 1000" by simp
  with inst have late: "quit_loop True ''qu'' 1000 1000 [(5, CHR ''i'')]
      = Some (False, 1000, [(5, CHR ''i'')])"
    by blast
  from k accepted diverged late show ?thesis by blast
qed

section \<open>Single keys at the waits\<close>

lemma get_key_x:
  "get_key unix t0 ((a, CHR ''x'') # rest) = Some (Some ''x'', max t0 a, rest)"
  "get_key unix t0 ((a, CHR ''X'') # rest) = Some (Some ''X'', max t0 a, rest)"
  by (simp_all add: get_key_allowed allowed_keys_def)

lemma get_key_b:
  "get_key unix t0 ((a, CHR ''b'') # rest) = Some (Some ''b'', max t0 a, rest)"
  "get_key unix t0 ((a, CHR ''B'') # rest) = Some (Some ''B'', max t0 a, rest)"
  by (simp_all add: get_key_allowed allowed_keys_def)

lemma quiz_question_space [simp]:
  "quiz_question_keys unix t0 ((a, CHR '' '') # rest) = Some (True, max t0 a, rest)"
  by (simp add: quiz_question_keys.simps [of unix t0 "(a, CHR '' '') # rest"])

lemma quiz_answer_space [simp]:
  "quiz_answer_keys unix t0 ((a, CHR '' '') # rest) = Some (Correct, max t0 a, rest)"
  by (simp add: quiz_answer_keys.simps [of unix t0 "(a, CHR '' '') # rest"])

lemma quiz_answer_x [simp]:
  "quiz_answer_keys unix t0 ((a, CHR ''x'') # rest) = Some (Incorrect, max t0 a, rest)"
  "quiz_answer_keys unix t0 ((a, CHR ''X'') # rest) = Some (Incorrect, max t0 a, rest)"
  by (simp_all add: quiz_answer_keys.simps [of unix t0 "(a, CHR ''x'') # rest"]
      quiz_answer_keys.simps [of unix t0 "(a, CHR ''X'') # rest"]
      get_key_x py_lower_def lower_char_def)

lemma await_correct [simp]:
  "await_judgement unix t0 ((a, CHR '' '') # (a', CHR '' '') # rest)
     = Some (Correct, max (max t0 a) a', rest)"
  by (simp add: await_judgement_def)

lemma await_incorrect [simp]:
  "await_judgement unix t0 ((a, CHR '' '') # (a', CHR ''x'') # rest)
     = Some (Incorrect, max (max t0 a) a', rest)"
  by (simp add: await_judgement_def)

lemma await_blocked [simp]:
  "await_judgement unix t0 [] = None"
  "await_judgement unix t0 [(a, CHR '' '')] = None"
  by (simp_all add: await_judgement_def quiz_question_keys.simps [of unix t0 "[]"]
      quiz_answer_keys.simps [of unix _ "[]"] get_key_def)

lemma practice_keys_space [simp]:
  "practice_keys unix i t0 ((a, CHR '' '') # rest) = Some (Forward, max t0 a, rest)"
  by (simp add: practice_keys.simps [of unix i t0 "(a, CHR '' '') # rest"])

lemma practice_keys_b:
  assumes "c = CHR ''b'' \<or> c = CHR ''B''"
  shows "practice_keys unix i t0 ((a, c) # rest) =
     (if 0 < i then Some (GoBack, max t0 a, rest) else practice_keys unix i (max t0 a) rest)"
  using assms
  by (auto simp: practice_keys.simps [of unix i t0 "(a, c) # rest"] get_key_b
      py_lower_def lower_char_def check_for_quit_def)

lemma practice_keys_empty [simp]: "practice_keys unix i t0 [] = None"
  by (simp add: practice_keys.simps [of unix i t0 "[]"] get_key_def)

section \<open>Practice: single steps of the loop\<close>

lemma practice_advance:
  assumes "cursor s < total_words s" and "stdin s = (a, CHR '' '') # (a', CHR '' '') # rest"
  shows "\<exists>s'. practice_loop unix s = practice_loop unix s' \<and> cursor s' = cursor s + 1 \<and>
    total_words s' = total_words s \<and> stdin s' = rest"
proof -
  have "practice_iteration unix s =
      Next () (s\<lparr>now := max (max (now s) a) a', stdin := rest, cursor := cursor s + 1\<rparr>)"
    using assms by (simp add: practice_iteration_def practice_answer_def Let_def)
  with assms(1) have "practice_loop unix s =
      practice_loop unix (s\<lparr>now := max (max (now s) a) a', stdin := rest, cursor := cursor s + 1\<rparr>)"
    by (subst practice_loop.simps) simp
  then show ?thesis
    by (intro exI [of _ "s\<lparr>now := max (max (now s) a) a', stdin := rest, cursor := cursor s + 1\<rparr>"])
      simp
qed

lemma practice_go_back:
  assumes "c = CHR ''b'' \<or> c = CHR ''B''"
    and "0 < cursor s" and "cursor s < total_words s" and "stdin s = (a, c) # rest"
  shows "\<exists>s'. practice_loop unix s = practice_loop unix s' \<and> cursor s' = cursor s - 1 \<and>
    total_words s' = total_words s \<and> stdin s' = rest"
proof -
  have "practice_iteration unix s =
      Next () (s\<lparr>now := max (now s) a, stdin := rest, cursor := cursor s - 1\<rparr>)"
    using assms(2,4) by (simp add: practice_iteration_def practice_keys_b [OF assms(1)] Let_def)
  with assms(3) have "practice_loop unix s =
      practice_loop unix (s\<lparr>now := max (now s) a, stdin := rest, cursor := cursor s - 1\<rparr>)"
    by (subst practice_loop.simps) simp
  then show ?thesis
    by (intro exI [of _ "s\<lparr>now := max (now s) a, stdin := rest, cursor := cursor s - 1\<rparr>"]) simp
qed

lemma practice_waits:
  assumes "cursor s < total_words s" and "stdin s = []"
  shows "practice_loop unix s = Blocked s"
  using assms by (subst practice_loop.simps) (simp add: practice_iteration_def)

section \<open>What each part of a card changes\<close>

lemma randint_range:
  assumes "a \<le> b"
  shows "a \<le> fst (randint rs a b) \<and> fst (randint rs a b) \<le> b"
proof (cases rs)
  case Nil
  with assms show ?thesis by (simp add: randint_def)
next
  case (Cons r rs')
  from assms have pos: "0 < nat (b - a + 1)" by simp
  have "r mod nat (b - a + 1) < nat (b - a + 1)"
    using pos by (rule mod_less_divisor)
  then have "int (r mod nat (b - a + 1)) < b - a + 1"
    using assms by linarith
  with Cons show ?thesis by (simp add: randint_def)
qed

lemma add_due_repeats_fields [simp]:
  "repeat_words (add_due_repeats s) = filter (\<lambda>e. \<not> is_due (position s) e) (repeat_words s)"
  "pending (add_due_repeats s) = pending s"
  "position (add_due_repeats s) = position s"
  "correct_count (add_due_repeats s) = correct_count s"
  "incorrect_count (add_due_repeats s) = incorrect_count s"
  "effects (add_due_repeats s) = effects s"
  "now (add_due_repeats s) = now s"
  "session_id (add_due_repeats s) = session_id s"
  "selected_groups (add_due_repeats s) = selected_groups s"
  by (simp_all add: add_due_repeats_def Let_def split: prod.splits)

lemma queue_add_due_repeats:
  "queue (add_due_repeats s) =
     fst (insert_words
       (map (\<lambda>(k, (rw, streak_needed, insert_pos)). (rw, streak_needed))
          (filter (is_due (position s)) (repeat_words s)))
       (queue s) (rng s))"
  by (simp add: add_due_repeats_def Let_def split: prod.splits)

lemma add_due_repeats_none:
  assumes "\<forall>e \<in> set (repeat_words s). \<not> is_due (position s) e"
  shows "add_due_repeats s = s"
proof -
  from assms have "filter (is_due (position s)) (repeat_words s) = []"
    and "filter (\<lambda>e. \<not> is_due (position s) e) (repeat_words s) = repeat_words s"
    by (simp_all add: filter_empty_conv filter_id_conv)
  then show ?thesis by (simp add: add_due_repeats_def)
qed

lemma mark_correct_fields [simp]:
  "queue (mark_correct w n s) = queue s"
  "pending (mark_correct w n s) = pending s"
  "position (mark_correct w n s) = position s"
  "correct_count (mark_correct w n s) = correct_count s + 1"
  "incorrect_count (mark_correct w n s) = incorrect_count s"
  "effects (mark_correct w n s) =
     effects s @ [SaveResult w True (session_id s) (selected_groups s)]"
  "now (mark_correct w n s) = now s"
  "session_id (mark_correct w n s) = session_id s"
  "selected_groups (mark_correct w n s) = selected_groups s"
  by (simp_all add: mark_correct_def save_result_def Let_def split: prod.splits)

lemma repeat_words_mark_correct:
  "repeat_words (mark_correct w n s) =
     (if n > 1 then
        dict_set (pinyin w) (w, n - 1, position s + fst (randint (rng s) 5 10)) (repeat_words s)
      else repeat_words s)"
  by (simp add: mark_correct_def save_result_def Let_def split: prod.splits)

lemma mark_incorrect_fields [simp]:
  "queue (mark_incorrect w s) = queue s"
  "pending (mark_incorrect w s) = pending s"
  "position (mark_incorrect w s) = position s"
  "correct_count (mark_incorrect w s) = correct_count s"
  "incorrect_count (mark_incorrect w s) = incorrect_count s + 1"
  "effects (mark_incorrect w s) =
     effects s @ [SaveResult w False (session_id s) (selected_groups s)]"
  "now (mark_incorrect w s) = now s"
  "session_id (mark_incorrect w s) = session_id s"
  "selected_groups (mark_incorrect w s) = selected_groups s"
  by (simp_all add: mark_incorrect_def save_result_def Let_def split: prod.splits)

lemma repeat_words_mark_incorrect:
  "repeat_words (mark_incorrect w s) =
     dict_set (pinyin w) (w, 2, position s + fst (randint (rng s) 5 10)) (repeat_words s)"
  by (simp add: mark_incorrect_def save_result_def Let_def split: prod.splits)

lemma drain_correct_fields [simp]:
  "queue (drain_correct w n s) = queue s"
  "pending (drain_correct w n s) = pending s"
  "position (drain_correct w n s) = position s"
  "correct_count (drain_correct w n s) = correct_count s + 1"
  "incorrect_count (drain_correct w n s) = incorrect_count s"
  "effects (drain_correct w n s) =
     effects s @ [SaveResult w True (session_id s) (selected_groups s)]"
  "now (drain_correct w n s) = now s"
  "session_id (drain_correct w n s) = session_id s"
  "selected_groups (drain_correct w n s) = selected_groups s"
  "repeat_words (drain_correct w n s) =
     (if n > 1 then dict_set (pinyin w) (w, n - 1, 0) (repeat_words s) else repeat_words s)"
  by (simp_all add: drain_correct_def save_result_def Let_def)

lemma drain_incorrect_fields [simp]:
  "queue (drain_incorrect w s) = queue s"
  "pending (drain_incorrect w s) = pending s"
  "position (drain_incorrect w s) = position s"
  "correct_count (drain_incorrect w s) = correct_count s"
  "incorrect_count (drain_incorrect w s) = incorrect_count s + 1"
  "effects (drain_incorrect w s) =
     effects s @ [SaveResult w False (session_id s) (selected_groups s)]"
  "now (drain_incorrect w s) = now s"
  "session_id (drain_incorrect w s) = session_id s"
  "selected_groups (drain_incorrect w s) = selected_groups s"
  "repeat_words (drain_incorrect w s) = dict_set (pinyin w) (w, 2, 0) (repeat_words s)"
  by (simp_all add: drain_incorrect_def save_result_def Let_def)

lemma begin_round_fields [simp]:
  "queue (begin_round s) = queue s"
  "pending (begin_round s) =
     map (\<lambda>(k, (w, streak, insert_pos)). (w, streak)) (repeat_words s)"
  "repeat_words (begin_round s) = []"
  "position (begin_round s) = position s"
  "correct_count (begin_round s) = correct_count s"
  "incorrect_count (begin_round s) = incorrect_count s"
  "effects (begin_round s) = effects s"
  "stdin (begin_round s) = stdin s"
  "now (begin_round s) = now s"
  "session_id (begin_round s) = session_id s"
  "selected_groups (begin_round s) = selected_groups s"
  by (simp_all add: begin_round_def)

lemma show_final_score_fields [simp]:
  "effects (show_final_score c s) =
     effects s @ [ShowFinalScore (correct_count s) (incorrect_count s) c]"
  "correct_count (show_final_score c s) = correct_count s"
  "incorrect_count (show_final_score c s) = incorrect_count s"
  "repeat_words (show_final_score c s) = repeat_words s"
  "pending (show_final_score c s) = pending s"
  "queue (show_final_score c s) = queue s"
  by (simp_all add: show_final_score_def)

text \<open>The three ways a card of the main loop can go, with what the card was given.\<close>

lemma main_iteration_cases:
  assumes "main_iteration unix w n s = Next c s'"
  obtains t rest where "c"
      and "await_judgement unix (now s) (stdin s) = Some (Correct, t, rest)"
      and "s' = (mark_correct w n (add_due_repeats s\<lparr>now := t, stdin := rest\<rparr>))
            \<lparr>position := position s + 1\<rparr>"
  | t rest where "\<not> c"
      and "await_judgement unix (now s) (stdin s) = Some (Incorrect, t, rest)"
      and "s' = (mark_incorrect w (add_due_repeats s\<lparr>now := t, stdin := rest\<rparr>))
            \<lparr>position := position s + 1\<rparr>"
  using assms
  by (auto simp: main_iteration_def Let_def split: option.splits judgement.splits)

lemma drain_item_cases:
  assumes "drain_item unix w n s = Next c s'"
  obtains t rest where "c"
      and "await_judgement unix (now s) (stdin s) = Some (Correct, t, rest)"
      and "s' = drain_correct w n (s\<lparr>now := t, stdin := rest\<rparr>)"
  | t rest where "\<not> c"
      and "await_judgement unix (now s) (stdin s) = Some (Incorrect, t, rest)"
      and "s' = drain_incorrect w (s\<lparr>now := t, stdin := rest\<rparr>)"
  using assms
  by (auto simp: drain_item_def Let_def split: option.splits judgement.splits)

section \<open>The dict and the queue as lists\<close>

lemma dict_set_keys:
  "map fst (dict_set k v kvs) =
     (if k \<in> set (map fst kvs) then map fst kvs else map fst kvs @ [k])"
proof (induction kvs)
  case Nil
  show ?case by simp
next
  case (Cons kv kvs)
  obtain k' v' where kv: "kv = (k', v')" by (cases kv)
  show ?case
  proof (cases "k' = k")
    case True
    with kv show ?thesis by simp
  next
    case False
    with kv Cons.IH show ?thesis by (cases "k \<in> set (map fst kvs)") auto
  qed
qed

lemma dict_set_distinct:
  "distinct (map fst kvs) \<Longrightarrow> distinct (map fst (dict_set k v kvs))"
  by (simp add: dict_set_keys)

lemma dict_set_subset: "set (dict_set k v kvs) \<subseteq> insert (k, v) (set kvs)"
  by (induction kvs) (auto split: if_splits)

lemma dict_set_member: "(k, v) \<in> set (dict_set k v kvs)"
  by (induction kvs) auto

lemma dict_set_replaces:
  assumes "distinct (map fst kvs)" and "e \<in> set (dict_set k v kvs)" and "fst e = k"
  shows "snd e = v"
  using assms
proof (induction kvs)
  case Nil
  then show ?case by auto
next
  case (Cons kv kvs)
  obtain k' v' where kv: "kv = (k', v')" by (cases kv)
  show ?case
  proof (cases "k' = k")
    case True
    with Cons.prems kv have "e = (k, v) \<or> e \<in> set kvs" and "k \<notin> fst ` set kvs"
      by auto
    with Cons.prems(3) show ?thesis by (cases e) force
  next
    case False
    with Cons.prems kv have "e \<in> set (dict_set k v kvs)" and "distinct (map fst kvs)"
      by auto
    with Cons.IH Cons.prems(3) show ?thesis by simp
  qed
qed

lemma dict_set_map_of: "map_of (dict_set k v kvs) = (map_of kvs)(k \<mapsto> v)"
  by (induction kvs) (auto simp: fun_eq_iff)

lemma dict_set_keys_mset:
  "mset (map fst (dict_set k v kvs)) \<subseteq># add_mset k (mset (map fst kvs))"
  by (simp add: dict_set_keys)

lemma mset_list_insert: "mset (list_insert i x xs) = add_mset x (mset xs)"
proof -
  have "mset (take i xs) + mset (drop i xs) = mset xs"
    by (metis append_take_drop_id mset_append)
  then show ?thesis by (simp add: list_insert_def)
qed

lemma mset_insert_words: "mset (fst (insert_words es q rs)) = mset es + mset q"
  by (induction es q rs rule: insert_words.induct)
    (simp_all add: mset_list_insert split: prod.splits)

lemma set_insert_words: "set (fst (insert_words es q rs)) = set es \<union> set q"
  using mset_insert_words [of es q rs] by (metis set_mset_mset set_mset_union)

lemma shuffle_from_mset: "i < length xs \<Longrightarrow> mset (fst (shuffle_from i rs xs)) = mset xs"
proof (induction i rs xs rule: shuffle_from.induct)
  case (1 rs xs)
  then show ?case by simp
next
  case (2 i rs xs)
  obtain j rs' where j: "randint rs 0 (int (Suc i)) = (j, rs')" by fastforce
  from randint_range [of 0 "int (Suc i)" rs] j have "0 \<le> j" and "j \<le> int (Suc i)"
    by simp_all
  with "2.prems" have nj: "nat j < length xs" by linarith
  let ?ys = "xs[Suc i := xs ! nat j, nat j := xs ! Suc i]"
  have "mset ?ys = mset xs"
    using "2.prems" nj by (simp add: mset_swap)
  moreover have "mset (fst (shuffle_from i rs' ?ys)) = mset ?ys"
    using "2.IH" [OF j [symmetric]] "2.prems" by simp
  ultimately show ?case using j by simp
qed

lemma shuffle_mset: "mset (fst (shuffle rs xs)) = mset xs"
proof (cases xs)
  case Nil
  then show ?thesis by (simp add: shuffle_def)
next
  case (Cons x xs')
  then show ?thesis by (simp add: shuffle_def shuffle_from_mset)
qed

section \<open>What a step changes\<close>

lemma card_step:
  assumes "queue s = (w, n) # rest"
    and "main_iteration unix w n (s\<lparr>queue := rest\<rparr>) = Next c s'"
  obtains r where "5 \<le> r" and "r \<le> 10"
    and "queue s' = fst (insert_words (due_words s) rest (rng s))"
    and "repeat_words s' =
      (if c then
         (if n > 1 then dict_set (pinyin w) (w, n - 1, position s + r) (not_due s)
          else not_due s)
       else dict_set (pinyin w) (w, 2, position s + r) (not_due s))"
    and "pending s' = pending s" and "position s' = position s + 1"
    and "correct_count s' = correct_count s + (if c then 1 else 0)"
    and "incorrect_count s' = incorrect_count s + (if c then 0 else 1)"
    and "effects s' = effects s @ [SaveResult w c (session_id s) (selected_groups s)]"
    and "session_id s' = session_id s" and "selected_groups s' = selected_groups s"
proof -
  let ?s0 = "s\<lparr>queue := rest\<rparr>"
  let ?r = "fst (randint (rng (add_due_repeats ?s0)) 5 10)"
  have range: "5 \<le> ?r" "?r \<le> 10"
    using randint_range [of 5 10 "rng (add_due_repeats ?s0)"] by simp_all
  have q: "queue (add_due_repeats ?s0) = fst (insert_words (due_words s) rest (rng s))"
    by (simp add: queue_add_due_repeats due_words_def)
  from assms(2) show ?thesis
  proof (cases rule: main_iteration_cases)
    case (1 t inp)
    show ?thesis
      by (rule that [of ?r])
        (use 1 range q in \<open>simp_all add: repeat_words_mark_correct not_due_def\<close>)
  next
    case (2 t inp)
    show ?thesis
      by (rule that [of ?r])
        (use 2 range q in \<open>simp_all add: repeat_words_mark_incorrect not_due_def\<close>)
  qed
qed

lemma repeat_step:
  assumes "pending s = (w, n) # ps"
    and "drain_item unix w n (s\<lparr>pending := ps\<rparr>) = Next c s'"
  shows "queue s' = queue s"
    and "repeat_words s' =
      (if c then
         (if n > 1 then dict_set (pinyin w) (w, n - 1, 0) (repeat_words s)
          else repeat_words s)
       else dict_set (pinyin w) (w, 2, 0) (repeat_words s))"
    and "pending s' = ps" and "position s' = position s"
    and "correct_count s' = correct_count s + (if c then 1 else 0)"
    and "incorrect_count s' = incorrect_count s + (if c then 0 else 1)"
    and "effects s' = effects s @ [SaveResult w c (session_id s) (selected_groups s)]"
    and "session_id s' = session_id s" and "selected_groups s' = selected_groups s"
  using assms(2) by (cases rule: drain_item_cases; simp)+

section \<open>Invariants of the quiz\<close>

lemma due_words_subset:
  "(w, n) \<in> set (due_words s) \<Longrightarrow> \<exists>k d. (k, (w, n, d)) \<in> set (repeat_words s) \<and> d \<le> position s"
  by (auto simp: due_words_def is_due_def)

lemma not_due_subset: "set (not_due s) \<subseteq> set (repeat_words s)"
  by (auto simp: not_due_def)

lemma streaks_ok_step:
  assumes "streaks_ok s" and "quiz_step unix s s'"
  shows "streaks_ok s'"
  using assms(2)
proof (cases rule: quiz_step.cases)
  case (card w n rest c)
  from card(1) assms(1) have n: "n \<in> {0, 1, 2}"
    and rest: "\<forall>(w, n) \<in> set rest. n \<in> {0, 1, 2}"
    by (auto simp: streaks_ok_def)
  from card(1,2) obtain r where
    q: "queue s' = fst (insert_words (due_words s) rest (rng s))"
    and rw: "repeat_words s' =
      (if c then
         (if n > 1 then dict_set (pinyin w) (w, n - 1, position s + r) (not_due s)
          else not_due s)
       else dict_set (pinyin w) (w, 2, position s + r) (not_due s))"
    and p: "pending s' = pending s"
    by (rule card_step)
  have "\<forall>(w, n) \<in> set (queue s'). n \<in> {0, 1, 2}"
    using rest assms(1) unfolding q set_insert_words
    by (fastforce simp: streaks_ok_def dest: due_words_subset)
  moreover have "\<forall>(k, (w, n, d)) \<in> set (repeat_words s'). n \<in> {1, 2}"
  proof -
    have old: "\<forall>(k, (w, n, d)) \<in> set (not_due s). n \<in> {1, 2}"
      using assms(1) not_due_subset [of s] by (auto simp: streaks_ok_def)
    show ?thesis
    proof (cases "c \<and> \<not> n > 1")
      case True
      with rw old show ?thesis by simp
    next
      case False
      then obtain m where m: "m \<in> {1, 2}"
        and "repeat_words s' = dict_set (pinyin w) (w, m, position s + r) (not_due s)"
        using rw n by (cases c) auto
      then have "set (repeat_words s') \<subseteq> insert (pinyin w, (w, m, position s + r)) (set (not_due s))"
        using dict_set_subset by metis
      with old m show ?thesis by auto
    qed
  qed
  moreover have "\<forall>(w, n) \<in> set (pending s'). n \<in> {1, 2}"
    using assms(1) p by (simp add: streaks_ok_def)
  ultimately show ?thesis by (simp add: streaks_ok_def)
next
  case round
  with assms(1) show ?thesis by (fastforce simp: streaks_ok_def)
next
  case (repeat w n ps c)
  from repeat(2) assms(1) have n: "n \<in> {1, 2}"
    and ps: "\<forall>(w, n) \<in> set ps. n \<in> {1, 2}"
    by (auto simp: streaks_ok_def)
  note f = repeat_step [OF repeat(2,3)]
  have old: "\<forall>(k, (w, n, d)) \<in> set (repeat_words s). n \<in> {1, 2}"
    using assms(1) by (simp add: streaks_ok_def)
  have "\<forall>(k, (w, n, d)) \<in> set (repeat_words s'). n \<in> {1, 2}"
  proof (cases "c \<and> \<not> n > 1")
    case True
    with f(2) old show ?thesis by simp
  next
    case False
    then obtain m where m: "m \<in> {1, 2}"
      and "repeat_words s' = dict_set (pinyin w) (w, m, 0) (repeat_words s)"
      using f(2) n by (cases c) auto
    then have "set (repeat_words s') \<subseteq> insert (pinyin w, (w, m, 0)) (set (repeat_words s))"
      using dict_set_subset by metis
    with old m show ?thesis by auto
  qed
  moreover have "\<forall>(w, n) \<in> set (queue s'). n \<in> {0, 1, 2}"
    using assms(1) f(1) by (simp add: streaks_ok_def)
  ultimately show ?thesis using ps f(3) by (simp add: streaks_ok_def)
qed

lemma start_state_fields [simp]:
  "queue (start_state ws groups rs clk inp) = map (\<lambda>w. (w, 0)) (fst (shuffle rs ws))"
  "repeat_words (start_state ws groups rs clk inp) = []"
  "pending (start_state ws groups rs clk inp) = []"
  "position (start_state ws groups rs clk inp) = 0"
  "correct_count (start_state ws groups rs clk inp) = 0"
  "incorrect_count (start_state ws groups rs clk inp) = 0"
  "effects (start_state ws groups rs clk inp) = []"
  "stdin (start_state ws groups rs clk inp) = inp"
  "now (start_state ws groups rs clk inp) = clk"
  "session_id (start_state ws groups rs clk inp) = clk"
  "selected_groups (start_state ws groups rs clk inp) = groups"
  by (simp_all add: start_state_def split: prod.splits)

lemma reachable_streaks_ok: "reachable unix ws s \<Longrightarrow> streaks_ok s"
proof (induction rule: reachable.induct)
  case (start groups rs clk inp)
  show ?case by (auto simp: streaks_ok_def)
next
  case (step s s')
  then show ?case by (blast intro: streaks_ok_step)
qed

lemma keyed_step:
  assumes "keyed s" and "quiz_step unix s s'"
  shows "keyed s'"
  using assms(2)
proof (cases rule: quiz_step.cases)
  case (card w n rest c)
  from card(1,2) obtain r where
    rw: "repeat_words s' =
      (if c then
         (if n > 1 then dict_set (pinyin w) (w, n - 1, position s + r) (not_due s)
          else not_due s)
       else dict_set (pinyin w) (w, 2, position s + r) (not_due s))"
    by (rule card_step)
  have old: "\<forall>(k, (w, n, d)) \<in> set (not_due s). k = pinyin w"
    using assms(1) not_due_subset [of s] by (auto simp: keyed_def)
  have "set (repeat_words s') \<subseteq> insert (pinyin w, (w, n - 1, position s + r))
      (insert (pinyin w, (w, 2, position s + r)) (set (not_due s)))"
    unfolding rw
    using dict_set_subset [of "pinyin w" "(w, n - 1, position s + r)" "not_due s"]
      dict_set_subset [of "pinyin w" "(w, 2, position s + r)" "not_due s"]
    by (auto split: if_splits)
  with old show ?thesis by (fastforce simp: keyed_def)
next
  case round
  then show ?thesis by (simp add: keyed_def)
next
  case (repeat w n ps c)
  note f = repeat_step [OF repeat(2,3)]
  have old: "\<forall>(k, (w, n, d)) \<in> set (repeat_words s). k = pinyin w"
    using assms(1) by (simp add: keyed_def)
  have "set (repeat_words s') \<subseteq> insert (pinyin w, (w, n - 1, 0))
      (insert (pinyin w, (w, 2, 0)) (set (repeat_words s)))"
    unfolding f(2)
    using dict_set_subset [of "pinyin w" "(w, n - 1, 0)" "repeat_words s"]
      dict_set_subset [of "pinyin w" "(w, 2, 0)" "repeat_words s"]
    by (auto split: if_splits)
  with old show ?thesis by (fastforce simp: keyed_def)
qed

lemma reachable_keyed: "reachable unix ws s \<Longrightarrow> keyed s"
proof (induction rule: reachable.induct)
  case (start groups rs clk inp)
  show ?case by (simp add: keyed_def)
next
  case (step s s')
  then show ?case by (blast intro: keyed_step)
qed

lemma distinct_keys_step:
  assumes "distinct (map fst (repeat_words s))" and "quiz_step unix s s'"
  shows "distinct (map fst (repeat_words s'))"
  using assms(2)
proof (cases rule: quiz_step.cases)
  case (card w n rest c)
  from card(1,2) obtain r where
    rw: "repeat_words s' =
      (if c then
         (if n > 1 then dict_set (pinyin w) (w, n - 1, position s + r) (not_due s)
          else not_due s)
       else dict_set (pinyin w) (w, 2, position s + r) (not_due s))"
    by (rule card_step)
  have "distinct (map fst (not_due s))"
    using assms(1) by (simp add: not_due_def distinct_map_filter)
  then show ?thesis unfolding rw by (simp add: dict_set_distinct)
next
  case round
  then show ?thesis by simp
next
  case (repeat w n ps c)
  note f = repeat_step [OF repeat(2,3)]
  from assms(1) show ?thesis unfolding f(2) by (simp add: dict_set_distinct)
qed

lemma reachable_distinct_keys: "reachable unix ws s \<Longrightarrow> distinct (map fst (repeat_words s))"
proof (induction rule: reachable.induct)
  case (start groups rs clk inp)
  show ?case by simp
next
  case (step s s')
  then show ?case by (blast intro: distinct_keys_step)
qed

lemma keyed_due_ids:
  assumes "keyed s"
  shows "map (pinyin \<circ> fst) (due_words s) = map fst (filter (is_due (position s)) (repeat_words s))"
proof -
  have "\<forall>e \<in> set (repeat_words s). (pinyin \<circ> fst) ((\<lambda>(k, (rw, n, d)). (rw, n)) e) = fst e"
    using assms by (auto simp: keyed_def)
  then show ?thesis by (simp add: due_words_def)
qed

lemma keys_due_not_due:
  "mset (map fst (filter (is_due (position s)) (repeat_words s))) + mset (map fst (not_due s))
     = mset (map fst (repeat_words s))"
proof -
  have "mset (filter (is_due (position s)) (repeat_words s)) + mset (not_due s)
      = mset (repeat_words s)"
    by (simp add: not_due_def)
  then have "image_mset fst (mset (filter (is_due (position s)) (repeat_words s)) + mset (not_due s))
      = image_mset fst (mset (repeat_words s))"
    by simp
  then show ?thesis by simp
qed

text \<open>
  A card of the main loop takes its identity out of what the state holds, unless the
  card goes back among the repeats; nothing else comes in.
\<close>

lemma live_card:
  assumes "keyed s" and "queue s = (w, n) # rest"
    and "main_iteration unix w n (s\<lparr>queue := rest\<rparr>) = Next c s'"
  shows "live s' \<subseteq># live s"
    and "c \<Longrightarrow> \<not> n > 1 \<Longrightarrow> add_mset (pinyin w) (live s') = live s"
proof -
  from assms(2,3) obtain r where
    q: "queue s' = fst (insert_words (due_words s) rest (rng s))"
    and rw: "repeat_words s' =
      (if c then
         (if n > 1 then dict_set (pinyin w) (w, n - 1, position s + r) (not_due s)
          else not_due s)
       else dict_set (pinyin w) (w, 2, position s + r) (not_due s))"
    and p: "pending s' = pending s"
    by (rule card_step)
  let ?due = "mset (map fst (filter (is_due (position s)) (repeat_words s)))"
  let ?nd = "mset (map fst (not_due s))"
  let ?rest = "mset (map (pinyin \<circ> fst) rest)"
  let ?pend = "mset (map (pinyin \<circ> fst) (pending s))"
  have "mset (map (pinyin \<circ> fst) (queue s')) =
      image_mset (pinyin \<circ> fst) (mset (due_words s) + mset rest)"
    unfolding q by (simp only: mset_map mset_insert_words)
  also have "\<dots> = mset (map (pinyin \<circ> fst) (due_words s)) + ?rest"
    by simp
  finally have qs: "mset (map (pinyin \<circ> fst) (queue s')) = ?due + ?rest"
    by (simp only: keyed_due_ids [OF assms(1)])
  have "?due + ?nd = mset (map fst (repeat_words s))"
    by (rule keys_due_not_due)
  then have s: "live s = add_mset (pinyin w) (?rest + (?due + ?nd) + ?pend)"
    using assms(2) by (simp add: live_def)
  have s': "live s' = ?due + ?rest + mset (map fst (repeat_words s')) + ?pend"
    unfolding live_def qs p by simp
  have "mset (map fst (repeat_words s')) \<subseteq># add_mset (pinyin w) ?nd"
    unfolding rw using dict_set_keys_mset [of "pinyin w" _ "not_due s"]
    by (auto split: if_splits)
  then have "?due + ?rest + mset (map fst (repeat_words s')) + ?pend
      \<subseteq># ?due + ?rest + add_mset (pinyin w) ?nd + ?pend"
    by (simp add: subset_mset.add_left_mono)
  then show "live s' \<subseteq># live s"
    unfolding s s' by (simp add: ac_simps)
  show "add_mset (pinyin w) (live s') = live s" if "c" "\<not> n > 1"
    unfolding s s' rw using that by (simp add: ac_simps)
qed

lemma live_step:
  assumes "keyed s" and "quiz_step unix s s'"
  shows "live s' \<subseteq># live s"
  using assms(2)
proof (cases rule: quiz_step.cases)
  case (card w n rest c)
  then show ?thesis using live_card(1) [OF assms(1)] by blast
next
  case round
  have "\<forall>e \<in> set (repeat_words s). (pinyin \<circ> fst) ((\<lambda>(k, (w, n, d)). (w, n)) e) = fst e"
    using assms(1) by (auto simp: keyed_def)
  then have "map (pinyin \<circ> fst) (map (\<lambda>(k, (w, n, d)). (w, n)) (repeat_words s))
      = map fst (repeat_words s)"
    by simp
  then have e: "mset (map (pinyin \<circ> fst) (pending (begin_round s)))
      = mset (map fst (repeat_words s))"
    by (simp only: begin_round_fields)
  have "live (begin_round s) = live s"
    unfolding live_def e using round(2,3) by simp
  with round(1) show ?thesis by simp
next
  case (repeat w n ps c)
  note f = repeat_step [OF repeat(2,3)]
  have "mset (map fst (repeat_words s')) \<subseteq># add_mset (pinyin w) (mset (map fst (repeat_words s)))"
    unfolding f(2) using dict_set_keys_mset [of "pinyin w" _ "repeat_words s"]
    by (auto split: if_splits)
  then have "mset (map (pinyin \<circ> fst) (queue s)) + mset (map fst (repeat_words s')) +
        mset (map (pinyin \<circ> fst) ps)
      \<subseteq># mset (map (pinyin \<circ> fst) (queue s)) +
        add_mset (pinyin w) (mset (map fst (repeat_words s))) + mset (map (pinyin \<circ> fst) ps)"
    by (simp add: subset_mset.add_left_mono)
  then show ?thesis using repeat(2) f(1,3) by (simp add: live_def)
qed

lemma reachable_later:
  assumes "reachable unix ws s" and "later unix s t"
  shows "reachable unix ws t"
  using assms(2,1) by (induction rule: later.induct) (auto intro: reachable.step)

lemma live_later:
  assumes "reachable unix ws s" and "later unix s t"
  shows "live t \<subseteq># live s"
  using assms(2)
proof (induction rule: later.induct)
  case same
  show ?case by simp
next
  case (step t t')
  from assms(1) step.hyps(1) have "keyed t"
    by (blast intro: reachable_keyed reachable_later)
  with step.hyps(2) have "live t' \<subseteq># live t" by (rule live_step [rotated])
  with step.IH show ?case by (rule subset_mset.order_trans [rotated])
qed

lemma live_start: "live (start_state ws groups rs clk inp) = mset (map pinyin ws)"
proof -
  have "mset (map (pinyin \<circ> fst) (map (\<lambda>w. (w, 0 :: int)) (fst (shuffle rs ws))))
      = image_mset pinyin (mset (fst (shuffle rs ws)))"
    by (simp add: comp_def)
  then show ?thesis by (simp add: live_def shuffle_mset)
qed

lemma reachable_live: "reachable unix ws s \<Longrightarrow> live s \<subseteq># mset (map pinyin ws)"
proof (induction rule: reachable.induct)
  case (start groups rs clk inp)
  show ?case by (simp add: live_start)
next
  case (step s s')
  from step.hyps(1) have "keyed s" by (rule reachable_keyed)
  with step.hyps(2) have "live s' \<subseteq># live s" by (rule live_step [rotated])
  with step.IH show ?case by (rule subset_mset.order_trans [rotated])
qed

lemma reachable_once:
  assumes "distinct (map pinyin ws)" and "reachable unix ws s"
  shows "count (live s) k \<le> 1"
proof -
  have "count (live s) k \<le> count (mset (map pinyin ws)) k"
    using reachable_live [OF assms(2)] by (rule mset_subset_eq_count)
  also have "\<dots> \<le> 1"
    using assms(1) by (simp add: distinct_count_atmost_1)
  finally show ?thesis .
qed

section \<open>Concrete runs\<close>

lemma pinyin_demo_word [simp]: "pinyin (demo_word p c) = p"
  by (simp add: demo_word_def)

lemma demo_word_eq [simp]: "demo_word p c = demo_word p' c' \<longleftrightarrow> p = p' \<and> c = c'"
  by (auto simp: demo_word_def)

lemma demo_missed_step:
  "main_iteration unix (demo_word ''ma'' ''A'') 0
     ((start_state [demo_word ''ma'' ''A''] [0] [] 0
        ((1, CHR '' '') # (2, CHR ''x'') # inp))\<lparr>queue := []\<rparr>)
   = Next False (demo_missed inp)"
  by (simp add: main_iteration_def add_due_repeats_def mark_incorrect_def save_result_def
      start_state_def shuffle_def randint_def demo_missed_def Let_def)

lemma demo_missed_reachable: "reachable unix [demo_word ''ma'' ''A''] (demo_missed inp)"
proof (rule reachable.step [OF reachable.start])
  show "quiz_step unix
      (start_state [demo_word ''ma'' ''A''] [0] [] 0 ((1, CHR '' '') # (2, CHR ''x'') # inp))
      (demo_missed inp)"
    by (rule quiz_step.card [OF _ demo_missed_step]) (simp add: shuffle_def)
qed

lemma demo_known_step:
  "main_iteration unix (demo_word ''ma'' ''A'') 0
     ((start_state [demo_word ''ma'' ''A''] [0] [] 0
        ((1, CHR '' '') # (2, CHR '' '') # inp))\<lparr>queue := []\<rparr>)
   = Next True (demo_known inp)"
  by (simp add: main_iteration_def add_due_repeats_def mark_correct_def save_result_def
      start_state_def shuffle_def randint_def demo_known_def Let_def)

lemma demo_twins_1_step:
  "main_iteration unix (demo_word ''shi'' ''A'') 0
     ((start_state [demo_word ''shi'' ''A'', demo_word ''shi'' ''B''] [0] [1] 0
        ((1, CHR '' '') # (2, CHR ''x'') # inp))\<lparr>queue := [(demo_word ''shi'' ''B'', 0)]\<rparr>)
   = Next False (demo_twins_1 inp)"
  by (simp add: main_iteration_def add_due_repeats_def mark_incorrect_def save_result_def
      start_state_def shuffle_def randint_def demo_twins_1_def Let_def)

lemma demo_twins_1_reachable:
  "reachable unix [demo_word ''shi'' ''A'', demo_word ''shi'' ''B''] (demo_twins_1 inp)"
proof (rule reachable.step [OF reachable.start])
  show "quiz_step unix
      (start_state [demo_word ''shi'' ''A'', demo_word ''shi'' ''B''] [0] [1] 0
        ((1, CHR '' '') # (2, CHR ''x'') # inp))
      (demo_twins_1 inp)"
    by (rule quiz_step.card [OF _ demo_twins_1_step]) (simp add: shuffle_def randint_def)
qed

lemma demo_twins_2_step:
  "main_iteration unix (demo_word ''shi'' ''B'') 0
     ((demo_twins_1 ((3, CHR '' '') # (4, CHR ''x'') # inp))\<lparr>queue := []\<rparr>)
   = Next False (demo_twins_2 inp)"
  by (simp add: main_iteration_def add_due_repeats_def mark_incorrect_def save_result_def
      is_due_def randint_def demo_twins_1_def demo_twins_2_def Let_def)

section \<open>Holding a missed card back\<close>

lemma held_back_step:
  assumes "held_back k d t" and "keyed t" and "quiz_step unix t t'"
  shows "held_back k d t'"
  using assms(3)
proof (cases rule: quiz_step.cases)
  case (card w n rest c)
  from card(1) have ne: "queue t \<noteq> []" by simp
  from card(1,2) obtain r where r: "5 \<le> r"
    and q: "queue t' = fst (insert_words (due_words t) rest (rng t))"
    and rw: "repeat_words t' =
      (if c then
         (if n > 1 then dict_set (pinyin w) (w, n - 1, position t + r) (not_due t)
          else not_due t)
       else dict_set (pinyin w) (w, 2, position t + r) (not_due t))"
    and pos: "position t' = position t + 1"
    by (rule card_step)
  have inq: "\<forall>(w, n) \<in> set (queue t). pinyin w = k \<longrightarrow> d \<le> position t"
    and inr: "\<forall>(k', (w, n, e)) \<in> set (repeat_words t). k' = k \<longrightarrow> d \<le> e"
    using assms(1) ne by (simp_all add: held_back_def)
  have "d \<le> position t'" if "(w', n') \<in> set (queue t')" "pinyin w' = k" for w' n'
  proof -
    from that(1) have "(w', n') \<in> set (due_words t) \<or> (w', n') \<in> set rest"
      unfolding q set_insert_words by simp
    then show ?thesis
    proof
      assume "(w', n') \<in> set (due_words t)"
      then obtain k' e where e: "(k', (w', n', e)) \<in> set (repeat_words t)" "e \<le> position t"
        by (blast dest: due_words_subset)
      with assms(2) have "k' = pinyin w'" by (auto simp: keyed_def)
      with e inr that(2) have "d \<le> e" by auto
      with e(2) pos show ?thesis by simp
    next
      assume "(w', n') \<in> set rest"
      with card(1) inq that(2) have "d \<le> position t" by auto
      with pos show ?thesis by simp
    qed
  qed
  moreover have "d \<le> e" if "(k, (w', n', e)) \<in> set (repeat_words t')" for w' n' e
  proof -
    have "set (repeat_words t') \<subseteq> insert (pinyin w, (w, n - 1, position t + r))
        (insert (pinyin w, (w, 2, position t + r)) (set (not_due t)))"
      unfolding rw
      using dict_set_subset [of "pinyin w" "(w, n - 1, position t + r)" "not_due t"]
        dict_set_subset [of "pinyin w" "(w, 2, position t + r)" "not_due t"]
      by (auto split: if_splits)
    with that consider "k = pinyin w" "e = position t + r"
      | "(k, (w', n', e)) \<in> set (repeat_words t)"
      using not_due_subset [of t] by auto
    then show ?thesis
    proof cases
      case 1
      with card(1) inq have "d \<le> position t" by auto
      with 1 r show ?thesis by simp
    next
      case 2
      with inr show ?thesis by auto
    qed
  qed
  ultimately show ?thesis by (auto simp: held_back_def)
next
  case round
  then show ?thesis by (simp add: held_back_def)
next
  case (repeat w n ps c)
  from repeat_step(1) [OF repeat(2,3)] repeat(1) show ?thesis
    by (simp add: held_back_def)
qed

lemma held_back_later:
  assumes "reachable unix ws s" and "held_back k d s" and "later unix s t"
  shows "held_back k d t"
  using assms(3)
proof (induction rule: later.induct)
  case same
  show ?case by (rule assms(2))
next
  case (step t t')
  from assms(1) step.hyps(1) have "keyed t"
    by (blast intro: reachable_keyed reachable_later)
  with step.IH step.hyps(2) show ?case by (blast intro: held_back_step)
qed

section \<open>The loops, one step at a time\<close>

lemma main_loop_card:
  assumes "queue s = (w, n) # rest"
    and "main_iteration unix w n (s\<lparr>queue := rest\<rparr>) = Next c s'"
  shows "main_loop unix s = main_loop unix s'"
  using assms by (subst main_loop.simps) simp

lemma main_loop_done: "queue s = [] \<Longrightarrow> main_loop unix s = drain unix s"
  by (subst main_loop.simps) simp

lemma drain_card:
  assumes "pending s = (w, n) # ps"
    and "drain_item unix w n (s\<lparr>pending := ps\<rparr>) = Next c s'"
  shows "drain unix s = drain unix s'"
  using assms by (subst drain.simps) simp

lemma drain_round:
  "pending s = [] \<Longrightarrow> repeat_words s \<noteq> [] \<Longrightarrow> drain unix s = drain unix (begin_round s)"
  by (subst drain.simps) simp

lemma drain_done:
  "pending s = [] \<Longrightarrow> repeat_words s = [] \<Longrightarrow> drain unix s = Ended (show_final_score True s)"
  by (subst drain.simps) simp

lemma main_iteration_keys:
  assumes "stdin s = (a, CHR '' '') # (a', c) # inp"
    and "c = CHR '' '' \<or> c = CHR ''x''"
  shows "\<exists>s'. main_iteration unix w n s = Next (c = CHR '' '') s' \<and> stdin s' = inp"
  using assms by (auto simp: main_iteration_def Let_def)

lemma drain_item_keys:
  assumes "stdin s = (a, CHR '' '') # (a', c) # inp"
    and "c = CHR '' '' \<or> c = CHR ''x''"
  shows "\<exists>s'. drain_item unix w n s = Next (c = CHR '' '') s' \<and> stdin s' = inp"
  using assms by (auto simp: drain_item_def Let_def)

text \<open>A card of the main loop that is given a space and then a space or an \<open>x\<close>.\<close>

lemma main_card_keys:
  assumes "queue s = (w, n) # rest"
    and "stdin s = (a, CHR '' '') # (a', c) # inp"
    and "c = CHR '' '' \<or> c = CHR ''x''"
  obtains s' r where "quiz_step unix s s'" and "main_loop unix s = main_loop unix s'"
    and "main_iteration unix w n (s\<lparr>queue := rest\<rparr>) = Next (c = CHR '' '') s'"
    and "stdin s' = inp" and "5 \<le> r" and "r \<le> 10"
    and "queue s' = fst (insert_words (due_words s) rest (rng s))"
    and "repeat_words s' =
      (if c = CHR '' '' then
         (if n > 1 then dict_set (pinyin w) (w, n - 1, position s + r) (not_due s)
          else not_due s)
       else dict_set (pinyin w) (w, 2, position s + r) (not_due s))"
    and "pending s' = pending s" and "position s' = position s + 1"
    and "correct_count s' = correct_count s + (if c = CHR '' '' then 1 else 0)"
    and "incorrect_count s' = incorrect_count s + (if c = CHR '' '' then 0 else 1)"
proof -
  have "stdin (s\<lparr>queue := rest\<rparr>) = (a, CHR '' '') # (a', c) # inp"
    using assms(2) by simp
  from main_iteration_keys [OF this assms(3), of unix w n]
  obtain s' where it: "main_iteration unix w n (s\<lparr>queue := rest\<rparr>) = Next (c = CHR '' '') s'"
    and inp: "stdin s' = inp"
    by blast
  from assms(1) it have step: "quiz_step unix s s'" by (rule quiz_step.card)
  from assms(1) it have loop: "main_loop unix s = main_loop unix s'" by (rule main_loop_card)
  from assms(1) it obtain r where "5 \<le> r" and "r \<le> 10"
    and "queue s' = fst (insert_words (due_words s) rest (rng s))"
    and "repeat_words s' =
      (if c = CHR '' '' then
         (if n > 1 then dict_set (pinyin w) (w, n - 1, position s + r) (not_due s)
          else not_due s)
       else dict_set (pinyin w) (w, 2, position s + r) (not_due s))"
    and "pending s' = pending s" and "position s' = position s + 1"
    and "correct_count s' = correct_count s + (if c = CHR '' '' then 1 else 0)"
    and "incorrect_count s' = incorrect_count s + (if c = CHR '' '' then 0 else 1)"
    by (rule card_step)
  with step loop it inp show ?thesis by (rule that)
qed

text \<open>The same for a card of a round over the pending repeats.\<close>

lemma drain_card_keys:
  assumes "queue s = []" and "pending s = (w, n) # ps"
    and "stdin s = (a, CHR '' '') # (a', c) # inp"
    and "c = CHR '' '' \<or> c = CHR ''x''"
  obtains s' where "quiz_step unix s s'" and "drain unix s = drain unix s'"
    and "stdin s' = inp" and "queue s' = []"
    and "repeat_words s' =
      (if c = CHR '' '' then
         (if n > 1 then dict_set (pinyin w) (w, n - 1, 0) (repeat_words s)
          else repeat_words s)
       else dict_set (pinyin w) (w, 2, 0) (repeat_words s))"
    and "pending s' = ps" and "position s' = position s"
    and "correct_count s' = correct_count s + (if c = CHR '' '' then 1 else 0)"
    and "incorrect_count s' = incorrect_count s + (if c = CHR '' '' then 0 else 1)"
proof -
  have "stdin (s\<lparr>pending := ps\<rparr>) = (a, CHR '' '') # (a', c) # inp"
    using assms(3) by simp
  from drain_item_keys [OF this assms(4), of unix w n]
  obtain s' where it: "drain_item unix w n (s\<lparr>pending := ps\<rparr>) = Next (c = CHR '' '') s'"
    and inp: "stdin s' = inp"
    by blast
  from assms(1,2) it have step: "quiz_step unix s s'" by (rule quiz_step.repeat)
  from assms(2) it have loop: "drain unix s = drain unix s'" by (rule drain_card)
  note f = repeat_step [OF assms(2) it]
  show ?thesis
    by (rule that [OF step loop inp]) (use f assms(1) in simp_all)
qed

lemma main_card_correct:
  assumes "queue s = (w, n) # rest"
    and "stdin s = (a, CHR '' '') # (a', CHR '' '') # inp"
  obtains s' r where "quiz_step unix s s'" and "main_loop unix s = main_loop unix s'"
    and "stdin s' = inp" and "5 \<le> r"
    and "queue s' = fst (insert_words (due_words s) rest (rng s))"
    and "repeat_words s' =
      (if n > 1 then dict_set (pinyin w) (w, n - 1, position s + r) (not_due s) else not_due s)"
    and "pending s' = pending s" and "position s' = position s + 1"
    and "correct_count s' = correct_count s + 1"
    and "incorrect_count s' = incorrect_count s"
proof -
  have "CHR '' '' = CHR '' '' \<or> CHR '' '' = CHR ''x''" by simp
  with assms obtain s' r where "quiz_step unix s s'" and "main_loop unix s = main_loop unix s'"
    and "main_iteration unix w n (s\<lparr>queue := rest\<rparr>) = Next (CHR '' '' = CHR '' '') s'"
    and "stdin s' = inp" and "5 \<le> r" and "r \<le> 10"
    and "queue s' = fst (insert_words (due_words s) rest (rng s))"
    and "repeat_words s' =
      (if CHR '' '' = CHR '' '' then
         (if n > 1 then dict_set (pinyin w) (w, n - 1, position s + r) (not_due s)
          else not_due s)
       else dict_set (pinyin w) (w, 2, position s + r) (not_due s))"
    and "pending s' = pending s" and "position s' = position s + 1"
    and "correct_count s' = correct_count s + (if CHR '' '' = CHR '' '' then 1 else 0)"
    and "incorrect_count s' = incorrect_count s + (if CHR '' '' = CHR '' '' then 0 else 1)"
    by (rule main_card_keys)
  then show ?thesis by (intro that [of s' r]) simp_all
qed

lemma main_card_incorrect:
  assumes "queue s = (w, n) # rest"
    and "stdin s = (a, CHR '' '') # (a', CHR ''x'') # inp"
  obtains s' r where "quiz_step unix s s'" and "main_loop unix s = main_loop unix s'"
    and "stdin s' = inp" and "5 \<le> r"
    and "queue s' = fst (insert_words (due_words s) rest (rng s))"
    and "repeat_words s' = dict_set (pinyin w) (w, 2, position s + r) (not_due s)"
    and "pending s' = pending s" and "position s' = position s + 1"
    and "correct_count s' = correct_count s"
    and "incorrect_count s' = incorrect_count s + 1"
proof -
  have "CHR ''x'' = CHR '' '' \<or> CHR ''x'' = CHR ''x''" by simp
  with assms obtain s' r where "quiz_step unix s s'" and "main_loop unix s = main_loop unix s'"
    and "main_iteration unix w n (s\<lparr>queue := rest\<rparr>) = Next (CHR ''x'' = CHR '' '') s'"
    and "stdin s' = inp" and "5 \<le> r" and "r \<le> 10"
    and "queue s' = fst (insert_words (due_words s) rest (rng s))"
    and "repeat_words s' =
      (if CHR ''x'' = CHR '' '' then
         (if n > 1 then dict_set (pinyin w) (w, n - 1, position s + r) (not_due s)
          else not_due s)
       else dict_set (pinyin w) (w, 2, position s + r) (not_due s))"
    and "pending s' = pending s" and "position s' = position s + 1"
    and "correct_count s' = correct_count s + (if CHR ''x'' = CHR '' '' then 1 else 0)"
    and "incorrect_count s' = incorrect_count s + (if CHR ''x'' = CHR '' '' then 0 else 1)"
    by (rule main_card_keys)
  then show ?thesis by (intro that [of s' r]) simp_all
qed

lemma drain_card_correct:
  assumes "queue s = []" and "pending s = (w, n) # ps"
    and "stdin s = (a, CHR '' '') # (a', CHR '' '') # inp"
  obtains s' where "quiz_step unix s s'" and "drain unix s = drain unix s'"
    and "stdin s' = inp" and "queue s' = []"
    and "repeat_words s' =
      (if n > 1 then dict_set (pinyin w) (w, n - 1, 0) (repeat_words s) else repeat_words s)"
    and "pending s' = ps" and "position s' = position s"
    and "correct_count s' = correct_count s + 1"
    and "incorrect_count s' = incorrect_count s"
proof -
  have "CHR '' '' = CHR '' '' \<or> CHR '' '' = CHR ''x''" by simp
  with assms obtain s' where "quiz_step unix s s'" and "drain unix s = drain unix s'"
    and "stdin s' = inp" and "queue s' = []"
    and "repeat_words s' =
      (if CHR '' '' = CHR '' '' then
         (if n > 1 then dict_set (pinyin w) (w, n - 1, 0) (repeat_words s)
          else repeat_words s)
       else dict_set (pinyin w) (w, 2, 0) (repeat_words s))"
    and "pending s' = ps" and "position s' = position s"
    and "correct_count s' = correct_count s + (if CHR '' '' = CHR '' '' then 1 else 0)"
    and "incorrect_count s' = incorrect_count s + (if CHR '' '' = CHR '' '' then 0 else 1)"
    by (rule drain_card_keys)
  then show ?thesis by (intro that [of s']) simp_all
qed

lemma drain_card_incorrect:
  assumes "queue s = []" and "pending s = (w, n) # ps"
    and "stdin s = (a, CHR '' '') # (a', CHR ''x'') # inp"
  obtains s' where "quiz_step unix s s'" and "drain unix s = drain unix s'"
    and "stdin s' = inp" and "queue s' = []"
    and "repeat_words s' = dict_set (pinyin w) (w, 2, 0) (repeat_words s)"
    and "pending s' = ps" and "position s' = position s"
    and "correct_count s' = correct_count s"
    and "incorrect_count s' = incorrect_count s + 1"
proof -
  have "CHR ''x'' = CHR '' '' \<or> CHR ''x'' = CHR ''x''" by simp
  with assms obtain s' where "quiz_step unix s s'" and "drain unix s = drain unix s'"
    and "stdin s' = inp" and "queue s' = []"
    and "repeat_words s' =
      (if CHR ''x'' = CHR '' '' then
         (if n > 1 then dict_set (pinyin w) (w, n - 1, 0) (repeat_words s)
          else repeat_words s)
       else dict_set (pinyin w) (w, 2, 0) (repeat_words s))"
    and "pending s' = ps" and "position s' = position s"
    and "correct_count s' = correct_count s + (if CHR ''x'' = CHR '' '' then 1 else 0)"
    and "incorrect_count s' = incorrect_count s + (if CHR ''x'' = CHR '' '' then 0 else 1)"
    by (rule drain_card_keys)
  then show ?thesis by (intro that [of s']) simp_all
qed

section \<open>The rounds over the pending repeats\<close>

lemma dict_set_sum:
  "sum_list (map f (dict_set k v kvs)) \<le> sum_list (map f kvs) + (f (k, v) :: nat)"
  by (induction kvs) auto

lemma visits_pred: "1 < n \<Longrightarrow> Suc (visits (n - 1)) = visits n"
  by (auto simp: visits_def)

lemma visits_pos: "0 < visits n"
  by (simp add: visits_def)

lemma drain_blocked:
  assumes "pending s = (w, n) # ps" and "stdin s = []"
  shows "drain unix s = Blocked s"
  using assms by (subst drain.simps) (simp add: drain_item_def)

lemma all_correct_finishes:
  assumes "\<forall>e \<in> set (stdin s). snd e = CHR '' ''"
    and "2 * cards_left s \<le> length (stdin s)"
    and "queue s = []"
  shows "\<exists>s'. drain unix s = Ended s' \<and> repeat_words s' = [] \<and> pending s' = []"
  using assms
proof (induction "2 * cards_left s + (if pending s = [] then 1 else 0)" arbitrary: s
    rule: less_induct)
  case less
  show ?case
  proof (cases "pending s")
    case Nil
    show ?thesis
    proof (cases "repeat_words s = []")
      case True
      with Nil show ?thesis by (simp add: drain_done)
    next
      case False
      let ?s = "begin_round s"
      have same: "cards_left ?s = cards_left s"
        using Nil by (simp add: cards_left_def comp_def case_prod_unfold)
      have ne: "pending ?s \<noteq> []" using False by simp
      have "\<exists>s'. drain unix ?s = Ended s' \<and> repeat_words s' = [] \<and> pending s' = []"
      proof (rule less.hyps)
        show "2 * cards_left ?s + (if pending ?s = [] then 1 else 0)
            < 2 * cards_left s + (if pending s = [] then 1 else 0)"
          using same ne Nil by simp
        show "\<forall>e \<in> set (stdin ?s). snd e = CHR '' ''" using less.prems(1) by simp
        show "2 * cards_left ?s \<le> length (stdin ?s)" using less.prems(2) same by simp
        show "queue ?s = []" using less.prems(3) by simp
      qed
      with Nil False show ?thesis by (simp add: drain_round)
    qed
  next
    case (Cons p ps)
    obtain w n where p: "p = (w, n)" by (cases p)
    from Cons p have pend: "pending s = (w, n) # ps" by simp
    then have "0 < cards_left s"
      by (simp add: cards_left_def visits_pos)
    with less.prems(2) have "2 \<le> length (stdin s)" by simp
    then obtain e1 e2 inp where inp: "stdin s = e1 # e2 # inp"
      by (auto simp: Suc_le_length_iff numeral_2_eq_2)
    obtain a a' where keys: "stdin s = (a, CHR '' '') # (a', CHR '' '') # inp"
      using inp less.prems(1) by (cases e1; cases e2) auto
    from less.prems(3) pend keys obtain s1 where loop: "drain unix s = drain unix s1"
      and i1: "stdin s1 = inp" and q1: "queue s1 = []"
      and rw: "repeat_words s1 =
        (if n > 1 then dict_set (pinyin w) (w, n - 1, 0) (repeat_words s) else repeat_words s)"
      and p1: "pending s1 = ps"
      by (rule drain_card_correct)
    let ?f = "\<lambda>(k, (w, n, d)). visits n"
    have "sum_list (map ?f (repeat_words s1)) + 1 \<le> sum_list (map ?f (repeat_words s)) + visits n"
    proof (cases "n > 1")
      case True
      have "sum_list (map ?f (repeat_words s1))
          \<le> sum_list (map ?f (repeat_words s)) + visits (n - 1)"
        using dict_set_sum [of ?f "pinyin w" "(w, n - 1, 0)" "repeat_words s"] rw True by simp
      with visits_pred [OF True] show ?thesis by simp
    next
      case False
      with rw visits_pos [of n] show ?thesis by simp
    qed
    then have less1: "cards_left s1 + 1 \<le> cards_left s"
      using pend p1 by (simp add: cards_left_def)
    have "\<exists>s'. drain unix s1 = Ended s' \<and> repeat_words s' = [] \<and> pending s' = []"
    proof (rule less.hyps)
      show "2 * cards_left s1 + (if pending s1 = [] then 1 else 0)
          < 2 * cards_left s + (if pending s = [] then 1 else 0)"
        using less1 by simp
      show "\<forall>e \<in> set (stdin s1). snd e = CHR '' ''"
        using less.prems(1) i1 keys by simp
      show "2 * cards_left s1 \<le> length (stdin s1)"
        using less.prems(2) less1 i1 keys by simp
      show "queue s1 = []" by (rule q1)
    qed
    with loop show ?thesis by simp
  qed
qed

lemma sum_list_at_most_2:
  "\<forall>x \<in> set xs. f x \<le> (2 :: nat) \<Longrightarrow> sum_list (map f xs) \<le> 2 * length xs"
  by (induction xs) auto

lemma cards_left_bound:
  assumes "streaks_ok s"
  shows "cards_left s \<le> 2 * (length (pending s) + length (repeat_words s))"
proof -
  have "\<forall>x \<in> set (pending s). (\<lambda>(w, n). visits n) x \<le> 2"
    using assms by (auto simp: streaks_ok_def visits_def)
  then have "sum_list (map (\<lambda>(w, n). visits n) (pending s)) \<le> 2 * length (pending s)"
    by (rule sum_list_at_most_2)
  moreover have "\<forall>x \<in> set (repeat_words s). (\<lambda>(k, (w, n, d)). visits n) x \<le> 2"
    using assms by (auto simp: streaks_ok_def visits_def)
  then have "sum_list (map (\<lambda>(k, (w, n, d)). visits n) (repeat_words s))
      \<le> 2 * length (repeat_words s)"
    by (rule sum_list_at_most_2)
  ultimately show ?thesis by (simp add: cards_left_def)
qed

lemma always_wrong:
  assumes "queue s = []" and "pending s = []" and "repeat_words s = [(pinyin w, (w, 2, d))]"
    and "stdin s = wrong_rounds n"
  shows "\<exists>b. drain unix s = Blocked b \<and> pending b \<noteq> []"
  using assms
proof (induction n arbitrary: s d)
  case 0
  let ?s = "begin_round s"
  have "drain unix s = drain unix ?s"
    using 0 by (simp add: drain_round)
  moreover have "pending ?s = (w, 2) # []" and "stdin ?s = []"
    using 0 by (simp_all add: wrong_rounds_def)
  then have "drain unix ?s = Blocked ?s" by (rule drain_blocked)
  ultimately show ?case using 0 by simp
next
  case (Suc n)
  let ?s = "begin_round s"
  have round: "drain unix s = drain unix ?s"
    using Suc.prems by (simp add: drain_round)
  have "queue ?s = []" and "pending ?s = (w, 2) # []"
    and "stdin ?s = (0, CHR '' '') # (0, CHR ''x'') # wrong_rounds n"
    using Suc.prems by (simp_all add: wrong_rounds_def)
  then obtain s1 where loop: "drain unix ?s = drain unix s1"
    and "stdin s1 = wrong_rounds n" and "queue s1 = []"
    and "repeat_words s1 = dict_set (pinyin w) (w, 2, 0) (repeat_words ?s)"
    and "pending s1 = []"
    by (rule drain_card_incorrect)
  then have "\<exists>b. drain unix s1 = Blocked b \<and> pending b \<noteq> []"
    by (intro Suc.IH [of s1 0]) simp_all
  with round loop show ?case by simp
qed

text \<open>The session over the one card \<open>ma\<close>, missed: the main loop hands over to the rounds.\<close>

lemma demo_missed_session:
  "quiz_session unix [demo_word ''ma'' ''A''] [0] [] 0 ((1, CHR '' '') # (2, CHR ''x'') # inp)
   = drain unix (demo_missed inp)"
proof -
  let ?s0 = "start_state [demo_word ''ma'' ''A''] [0] [] 0
      ((1, CHR '' '') # (2, CHR ''x'') # inp)"
  have q: "queue ?s0 = (demo_word ''ma'' ''A'', 0) # []"
    by (simp add: start_state_def shuffle_def)
  have "main_loop unix ?s0 = main_loop unix (demo_missed inp)"
    by (rule main_loop_card [OF q demo_missed_step])
  also have "\<dots> = drain unix (demo_missed inp)"
    by (rule main_loop_done) (simp add: demo_missed_def)
  finally show ?thesis by (simp add: quiz_session_def)
qed

section \<open>What a session writes\<close>

lemma reported_now:
  assumes "effects s' = effects s @ [ShowFinalScore (correct_count s) (incorrect_count s) f]"
    and "correct_count s' = correct_count s" and "incorrect_count s' = incorrect_count s"
  shows "reported s s'"
  unfolding reported_def
  by (rule exI [of _ "[]"], rule exI [of _ f]) (use assms in simp)

lemma reported_after:
  assumes "effects s1 = effects s @ [SaveResult w c (session_id s) (selected_groups s)]"
    and "correct_count s1 = correct_count s + (if c then 1 else 0)"
    and "incorrect_count s1 = incorrect_count s + (if c then 0 else 1)"
    and "session_id s1 = session_id s" and "selected_groups s1 = selected_groups s"
    and "reported s1 s'"
  shows "reported s s'"
proof -
  from assms(6) obtain rows f where
    e: "effects s' = effects s1 @ rows @
          [ShowFinalScore (correct_count s') (incorrect_count s') f]"
    and r: "\<forall>e \<in> set rows. \<exists>w b. e = SaveResult w b (session_id s1) (selected_groups s1)"
    and c: "correct_count s' = correct_count s1 + int (length (filter (saved True) rows))"
    and i: "incorrect_count s' = incorrect_count s1 + int (length (filter (saved False) rows))"
    unfolding reported_def by blast
  let ?row = "SaveResult w c (session_id s) (selected_groups s)"
  show ?thesis
    unfolding reported_def
  proof (intro exI [of _ "?row # rows"] exI [of _ f] conjI)
    show "effects s' = effects s @ (?row # rows) @
        [ShowFinalScore (correct_count s') (incorrect_count s') f]"
      using e assms(1) by simp
    show "\<forall>e \<in> set (?row # rows). \<exists>w b. e = SaveResult w b (session_id s) (selected_groups s)"
      using r assms(4,5) by auto
    show "correct_count s' = correct_count s + int (length (filter (saved True) (?row # rows)))"
      using c assms(2) by simp
    show "incorrect_count s' =
        incorrect_count s + int (length (filter (saved False) (?row # rows)))"
      using i assms(3) by simp
  qed
qed

lemma main_iteration_ended:
  assumes "main_iteration unix w n s = Ended e"
  shows "effects e = effects s @ [ShowFinalScore (correct_count s) (incorrect_count s) False]"
    and "correct_count e = correct_count s" and "incorrect_count e = incorrect_count s"
  using assms
  by (auto simp: main_iteration_def Let_def show_final_score_def
      split: option.splits judgement.splits)

lemma drain_item_ended:
  assumes "drain_item unix w n s = Ended e"
  shows "effects e = effects s @ [ShowFinalScore (correct_count s) (incorrect_count s) False]"
    and "correct_count e = correct_count s" and "incorrect_count e = incorrect_count s"
  using assms
  by (auto simp: drain_item_def Let_def show_final_score_def
      split: option.splits judgement.splits)

lemma reported_begin_round: "reported (begin_round s) s' \<Longrightarrow> reported s s'"
  by (simp add: reported_def)

lemma drain_reported: "drain unix s = Ended s' \<Longrightarrow> reported s s'"
proof (induction unix s rule: drain.induct)
  case (1 unix s)
  show ?case
  proof (cases "pending s")
    case Nil
    show ?thesis
    proof (cases "repeat_words s = []")
      case True
      with Nil "1.prems" have "s' = show_final_score True s"
        by (simp add: drain_done)
      then show ?thesis by (intro reported_now [where f = True]) simp_all
    next
      case False
      with Nil "1.prems" have "drain unix (begin_round s) = Ended s'"
        by (simp add: drain_round)
      with "1.IH"(1) [OF Nil False] have "reported (begin_round s) s'" by simp
      then show ?thesis by (rule reported_begin_round)
    qed
  next
    case (Cons p ps)
    obtain w n where p: "p = (w, n)" by (cases p)
    with Cons have pend: "pending s = (w, n) # ps" by simp
    show ?thesis
    proof (cases "drain_item unix w n (s\<lparr>pending := ps\<rparr>)")
      case (Blocked b)
      with pend "1.prems" show ?thesis by (simp add: drain.simps [of unix s])
    next
      case (Ended e)
      with pend "1.prems" have "s' = e" by (simp add: drain.simps [of unix s])
      with drain_item_ended [OF Ended] show ?thesis
        by (intro reported_now [where f = False]) simp_all
    next
      case (Next c s1)
      with pend "1.prems" have "drain unix s1 = Ended s'"
        by (simp add: drain.simps [of unix s])
      with "1.IH"(2) [OF pend refl Next] have "reported s1 s'" by simp
      with repeat_step(7,5,6,8,9) [OF pend Next] show ?thesis by (rule reported_after)
    qed
  qed
qed

lemma main_loop_reported: "main_loop unix s = Ended s' \<Longrightarrow> reported s s'"
proof (induction unix s rule: main_loop.induct)
  case (1 unix s)
  show ?case
  proof (cases "queue s")
    case Nil
    with "1.prems" have "drain unix s = Ended s'" by (simp add: main_loop_done)
    then show ?thesis by (rule drain_reported)
  next
    case (Cons p rest)
    obtain w n where p: "p = (w, n)" by (cases p)
    with Cons have q: "queue s = (w, n) # rest" by simp
    show ?thesis
    proof (cases "main_iteration unix w n (s\<lparr>queue := rest\<rparr>)")
      case (Blocked b)
      with q "1.prems" show ?thesis by (simp add: main_loop.simps [of unix s])
    next
      case (Ended e)
      with q "1.prems" have "s' = e" by (simp add: main_loop.simps [of unix s])
      with main_iteration_ended [OF Ended] show ?thesis
        by (intro reported_now [where f = False]) simp_all
    next
      case (Next c s1)
      with q "1.prems" have "main_loop unix s1 = Ended s'"
        by (simp add: main_loop.simps [of unix s])
      with "1.IH" [OF q refl Next] have rep: "reported s1 s'" by simp
      from q Next obtain r where
        "effects s1 = effects s @ [SaveResult w c (session_id s) (selected_groups s)]"
        and "correct_count s1 = correct_count s + (if c then 1 else 0)"
        and "incorrect_count s1 = incorrect_count s + (if c then 0 else 1)"
        and "session_id s1 = session_id s" and "selected_groups s1 = selected_groups s"
        by (rule card_step)
      then show ?thesis using rep by (rule reported_after)
    qed
  qed
qed

lemma practice_answer_next:
  assumes "practice_answer unix s = Next u s'"
  shows "effects s' = effects s" and "session_id s' = session_id s"
    and "selected_groups s' = selected_groups s" and "start_time s' = start_time s"
  using assms
  by (auto simp: practice_answer_def Let_def split: option.splits nav.splits)

lemma practice_answer_ended:
  assumes "practice_answer unix s = Ended e"
  shows "effects e = effects s @
      [SavePracticeTime (session_id s) (now e - start_time s) (selected_groups s)]"
  using assms
  by (auto simp: practice_answer_def save_practice_time_def Let_def
      split: option.splits nav.splits)

lemma practice_iteration_cases:
  assumes "practice_iteration unix s = r" and "r \<noteq> Blocked s"
  obtains t rest where "r = Ended (save_practice_time (t - start_time s) (s\<lparr>now := t, stdin := rest\<rparr>))"
  | t rest where "r = Next () (s\<lparr>now := t, stdin := rest, cursor := cursor s - 1\<rparr>)"
  | t rest where "r = practice_answer unix (s\<lparr>now := t, stdin := rest\<rparr>)"
  using assms
  by (auto simp: practice_iteration_def Let_def split: option.splits if_splits)

lemma practice_iteration_next:
  assumes "practice_iteration unix s = Next u s'"
  shows "effects s' = effects s" and "session_id s' = session_id s"
    and "selected_groups s' = selected_groups s" and "start_time s' = start_time s"
proof -
  have "Next u s' \<noteq> Blocked s" by simp
  with assms have "effects s' = effects s \<and> session_id s' = session_id s \<and>
      selected_groups s' = selected_groups s \<and> start_time s' = start_time s"
  proof (cases rule: practice_iteration_cases)
    case (1 t rest)
    then show ?thesis by simp
  next
    case (2 t rest)
    then show ?thesis by simp
  next
    case (3 t rest)
    from practice_answer_next [OF 3 [symmetric]] show ?thesis by simp
  qed
  then show "effects s' = effects s" and "session_id s' = session_id s"
    and "selected_groups s' = selected_groups s" and "start_time s' = start_time s"
    by simp_all
qed

lemma practice_iteration_ended:
  assumes "practice_iteration unix s = Ended e"
  shows "effects e = effects s @
      [SavePracticeTime (session_id s) (now e - start_time s) (selected_groups s)]"
proof -
  have "Ended e \<noteq> Blocked s" by simp
  with assms show ?thesis
  proof (cases rule: practice_iteration_cases)
    case (1 t rest)
    then show ?thesis by (simp add: save_practice_time_def)
  next
    case (2 t rest)
    then show ?thesis by simp
  next
    case (3 t rest)
    from practice_answer_ended [OF 3 [symmetric]] show ?thesis by simp
  qed
qed

lemma practice_loop_ended:
  "practice_loop unix s = Ended e \<Longrightarrow>
   effects e = effects s @
     [SavePracticeTime (session_id s) (now e - start_time s) (selected_groups s)]"
proof (induction unix s rule: practice_loop.induct)
  case (1 unix s)
  show ?case
  proof (cases "cursor s < total_words s")
    case False
    with "1.prems" have "e = save_practice_time (now s - start_time s) s"
      by (simp add: practice_loop.simps [of unix s])
    then show ?thesis by (simp add: save_practice_time_def)
  next
    case True
    show ?thesis
    proof (cases "practice_iteration unix s")
      case (Blocked b)
      with True "1.prems" show ?thesis by (simp add: practice_loop.simps [of unix s])
    next
      case (Ended e')
      with True "1.prems" have "e = e'" by (simp add: practice_loop.simps [of unix s])
      with practice_iteration_ended [OF Ended] show ?thesis by simp
    next
      case (Next u s1)
      with True "1.prems" have "practice_loop unix s1 = Ended e"
        by (simp add: practice_loop.simps [of unix s])
      with "1.IH" [OF True Next] practice_iteration_next [OF Next] show ?thesis by simp
    qed
  qed
qed

section \<open>The specification, claim by claim\<close>

text \<open>
  Claim C1. In a quiz over a deck whose identities (\<open>pinyin\<close>) are all different, a
  card judged correct while the entry taken from the queue has required streak 0 is
  retired: in every later state of the session its identity is neither in the queue
  nor among the repeats (nor in the round taken from them), and it is not the card
  about to be shown.
\<close>

theorem retirement:
  assumes "distinct (map pinyin ws)"
    and "reachable unix ws s"
    and "queue s = (w, 0) # rest"
    and "main_iteration unix w 0 (s\<lparr>queue := rest\<rparr>) = Next True s'"
    and "later unix s' t"
  shows "pinyin w \<notin> set (map (pinyin \<circ> fst) (queue t)) \<and>
         pinyin w \<notin> set (map fst (repeat_words t)) \<and>
         pinyin w \<notin> set (map (pinyin \<circ> fst) (pending t)) \<and>
         (\<forall>w'. presenting t = Some w' \<longrightarrow> pinyin w' \<noteq> pinyin w)"
proof -
  from assms(2) have "keyed s" by (rule reachable_keyed)
  then have "add_mset (pinyin w) (live s') = live s"
    using assms(3,4) by (rule live_card(2)) simp_all
  then have "count (live s) (pinyin w) = Suc (count (live s') (pinyin w))"
    by (metis count_add_mset)
  moreover have "count (live s) (pinyin w) \<le> 1"
    using assms(1,2) by (rule reachable_once)
  ultimately have gone: "count (live s') (pinyin w) = 0" by simp
  from assms(2,3,4) have "reachable unix ws s'"
    by (blast intro: reachable.step quiz_step.card)
  then have "live t \<subseteq># live s'"
    using assms(5) by (rule live_later)
  then have "count (live t) (pinyin w) \<le> count (live s') (pinyin w)"
    by (rule mset_subset_eq_count)
  with gone have "pinyin w \<notin># live t"
    by (simp add: not_in_iff)
  then have out: "pinyin w \<notin> set (map (pinyin \<circ> fst) (queue t))"
    "pinyin w \<notin> set (map fst (repeat_words t))"
    "pinyin w \<notin> set (map (pinyin \<circ> fst) (pending t))"
    by (auto simp: live_def)
  have "pinyin w' \<noteq> pinyin w" if "presenting t = Some w'" for w'
    using that out(1,3)
    by (auto simp: presenting_def split: list.splits)
  with out show ?thesis by blast
qed

theorem retirement_witness:
  "main_iteration True (demo_word ''ma'' ''A'') 0
     ((start_state [demo_word ''ma'' ''A''] [0] [] 0
        [(1, CHR '' ''), (2, CHR '' '')])\<lparr>queue := []\<rparr>) = Next True (demo_known []) \<and>
   ''ma'' \<notin> set (map (pinyin \<circ> fst) (queue (demo_known []))) \<and>
   ''ma'' \<notin> set (map fst (repeat_words (demo_known []))) \<and>
   ''ma'' \<notin> set (map (pinyin \<circ> fst) (pending (demo_known [])))"
proof -
  let ?A = "demo_word ''ma'' ''A''"
  let ?s = "start_state [?A] [0] [] 0 [(1, CHR '' ''), (2, CHR '' '')]"
  have d: "distinct (map pinyin [?A])" by simp
  have r: "reachable True [?A] ?s" by (rule reachable.start)
  have q: "queue ?s = (?A, 0) # []" by (simp add: shuffle_def)
  have l: "later True (demo_known []) (demo_known [])" by (rule later.same)
  from retirement [OF d r q demo_known_step l] demo_known_step [of True "[]"]
  show ?thesis by simp
qed

text \<open>
  Claim C2. A quiz over three cards taken from the queue in the order A, B, C, with A
  judged correct, B incorrect and C correct: the queue is then empty with only B
  waiting (streak 2, due at position 6 or later, so not due while C was shown); the
  first round shows B, which is judged correct and waits again with streak 1; the next
  round shows B again, a second correct answer retires it, and the session is complete
  with 4 correct and 1 incorrect.
\<close>

theorem three_cards:
  assumes "fst (shuffle rs [A, B, C]) = [A, B, C]"
    and "inp = [(a1, CHR '' ''), (a2, CHR '' ''), (a3, CHR '' ''), (a4, CHR ''x''),
                (a5, CHR '' ''), (a6, CHR '' ''), (a7, CHR '' ''), (a8, CHR '' ''),
                (a9, CHR '' ''), (a10, CHR '' '')]"
  shows "\<exists>s3 s5 s'.
      later unix (start_state [A, B, C] groups rs clk inp) s3 \<and>
      queue s3 = [] \<and> pending s3 = [] \<and>
      (\<exists>d. 6 \<le> d \<and> repeat_words s3 = [(pinyin B, (B, 2, d))]) \<and>
      correct_count s3 = 2 \<and> incorrect_count s3 = 1 \<and>
      later unix s3 s5 \<and>
      queue s5 = [] \<and> pending s5 = [] \<and> repeat_words s5 = [(pinyin B, (B, 1, 0))] \<and>
      correct_count s5 = 3 \<and> incorrect_count s5 = 1 \<and>
      quiz_session unix [A, B, C] groups rs clk inp = Ended s' \<and>
      queue s' = [] \<and> pending s' = [] \<and> repeat_words s' = [] \<and>
      correct_count s' = 4 \<and> incorrect_count s' = 1 \<and>
      last (effects s') = ShowFinalScore 4 1 True"
proof -
  let ?sp = "CHR '' ''"
  let ?s0 = "start_state [A, B, C] groups rs clk inp"
  have s0: "queue ?s0 = (A, 0) # [(B, 0), (C, 0)]" "repeat_words ?s0 = []" "pending ?s0 = []"
    "position ?s0 = 0" "correct_count ?s0 = 0" "incorrect_count ?s0 = 0"
    using assms by simp_all
  have i0: "stdin ?s0 = (a1, ?sp) # (a2, ?sp) # [(a3, ?sp), (a4, CHR ''x''),
       (a5, ?sp), (a6, ?sp), (a7, ?sp), (a8, ?sp), (a9, ?sp), (a10, ?sp)]"
    using assms by simp
  have nd0: "not_due ?s0 = []" "due_words ?s0 = []"
    using s0(2) by (simp_all add: not_due_def due_words_def)
  from s0(1) i0 obtain s1 r1 where step1: "quiz_step unix ?s0 s1"
    and loop1: "main_loop unix ?s0 = main_loop unix s1"
    and i1: "stdin s1 = [(a3, ?sp), (a4, CHR ''x''),
       (a5, ?sp), (a6, ?sp), (a7, ?sp), (a8, ?sp), (a9, ?sp), (a10, ?sp)]"
    and "5 \<le> r1"
    and raw1: "queue s1 = fst (insert_words (due_words ?s0) [(B, 0), (C, 0)] (rng ?s0))"
      "repeat_words s1 =
        (if 0 > (1 :: int) then dict_set (pinyin A) (A, 0 - 1, position ?s0 + r1) (not_due ?s0)
         else not_due ?s0)"
      "pending s1 = pending ?s0" "position s1 = position ?s0 + 1"
      "correct_count s1 = correct_count ?s0 + 1" "incorrect_count s1 = incorrect_count ?s0"
    by (rule main_card_correct)
  have s1: "queue s1 = (B, 0) # [(C, 0)]" "repeat_words s1 = []" "pending s1 = []"
    "position s1 = 1" "correct_count s1 = 1" "incorrect_count s1 = 0"
    using raw1 nd0 s0 by simp_all
  have nd1: "not_due s1 = []" "due_words s1 = []"
    using s1(2) by (simp_all add: not_due_def due_words_def)
  from s1(1) i1 obtain s2 r where step2: "quiz_step unix s1 s2"
    and loop2: "main_loop unix s1 = main_loop unix s2"
    and i2: "stdin s2 = [(a5, ?sp), (a6, ?sp), (a7, ?sp), (a8, ?sp), (a9, ?sp), (a10, ?sp)]"
    and r: "5 \<le> r"
    and raw2: "queue s2 = fst (insert_words (due_words s1) [(C, 0)] (rng s1))"
      "repeat_words s2 = dict_set (pinyin B) (B, 2, position s1 + r) (not_due s1)"
      "pending s2 = pending s1" "position s2 = position s1 + 1"
      "correct_count s2 = correct_count s1" "incorrect_count s2 = incorrect_count s1 + 1"
    by (rule main_card_incorrect)
  have s2: "queue s2 = (C, 0) # []" "repeat_words s2 = [(pinyin B, (B, 2, 1 + r))]"
    "pending s2 = []" "position s2 = 2" "correct_count s2 = 1" "incorrect_count s2 = 1"
    using raw2 nd1 s1 by simp_all
  have nd2: "not_due s2 = [(pinyin B, (B, 2, 1 + r))]" "due_words s2 = []"
    using s2(2,4) r by (simp_all add: not_due_def due_words_def is_due_def)
  from s2(1) i2 obtain s3 r3 where step3: "quiz_step unix s2 s3"
    and loop3: "main_loop unix s2 = main_loop unix s3"
    and i3: "stdin s3 = [(a7, ?sp), (a8, ?sp), (a9, ?sp), (a10, ?sp)]"
    and "5 \<le> r3"
    and raw3: "queue s3 = fst (insert_words (due_words s2) [] (rng s2))"
      "repeat_words s3 =
        (if 0 > (1 :: int) then dict_set (pinyin C) (C, 0 - 1, position s2 + r3) (not_due s2)
         else not_due s2)"
      "pending s3 = pending s2" "position s3 = position s2 + 1"
      "correct_count s3 = correct_count s2 + 1" "incorrect_count s3 = incorrect_count s2"
    by (rule main_card_correct)
  have s3: "queue s3 = []" "repeat_words s3 = [(pinyin B, (B, 2, 1 + r))]"
    "pending s3 = []" "position s3 = 3" "correct_count s3 = 2" "incorrect_count s3 = 1"
    using raw3 nd2 s2 by simp_all
  let ?s3' = "begin_round s3"
  have r3: "quiz_step unix s3 ?s3'"
    using s3 by (intro quiz_step.round) simp_all
  have d3: "main_loop unix s3 = drain unix ?s3'"
    using s3 by (simp add: main_loop_done drain_round)
  have s3': "queue ?s3' = []" "pending ?s3' = (B, 2) # []"
    "stdin ?s3' = (a7, ?sp) # (a8, ?sp) # [(a9, ?sp), (a10, ?sp)]"
    using s3 i3 by simp_all
  from s3' obtain s5 where step5: "quiz_step unix ?s3' s5"
    and loop5: "drain unix ?s3' = drain unix s5"
    and i5: "stdin s5 = [(a9, ?sp), (a10, ?sp)]"
    and raw5: "queue s5 = []"
      "repeat_words s5 =
        (if 2 > (1 :: int) then dict_set (pinyin B) (B, 2 - 1, 0) (repeat_words ?s3')
         else repeat_words ?s3')"
      "pending s5 = []" "position s5 = position ?s3'"
      "correct_count s5 = correct_count ?s3' + 1" "incorrect_count s5 = incorrect_count ?s3'"
    by (rule drain_card_correct)
  have s5: "queue s5 = []" "repeat_words s5 = [(pinyin B, (B, 1, 0))]" "pending s5 = []"
    "correct_count s5 = 3" "incorrect_count s5 = 1"
    using raw5 s3 by simp_all
  let ?s5' = "begin_round s5"
  have d5: "drain unix s5 = drain unix ?s5'"
    using s5 by (simp add: drain_round)
  have s5': "queue ?s5' = []" "pending ?s5' = (B, 1) # []"
    "stdin ?s5' = (a9, ?sp) # (a10, ?sp) # []"
    using s5 i5 by simp_all
  from s5' obtain s6 where loop6: "drain unix ?s5' = drain unix s6"
    and raw6: "queue s6 = []"
      "repeat_words s6 =
        (if 1 > (1 :: int) then dict_set (pinyin B) (B, 1 - 1, 0) (repeat_words ?s5')
         else repeat_words ?s5')"
      "pending s6 = []"
      "correct_count s6 = correct_count ?s5' + 1" "incorrect_count s6 = incorrect_count ?s5'"
    by (rule drain_card_correct)
  have s6: "queue s6 = []" "repeat_words s6 = []" "pending s6 = []"
    "correct_count s6 = 4" "incorrect_count s6 = 1"
    using raw6 s5 by simp_all
  let ?end = "show_final_score True s6"
  have "drain unix s6 = Ended ?end"
    using s6 by (simp add: drain_done)
  with loop1 loop2 loop3 d3 loop5 d5 loop6
  have fin: "quiz_session unix [A, B, C] groups rs clk inp = Ended ?end"
    by (simp add: quiz_session_def)
  have l3: "later unix ?s0 s3"
    using step1 step2 step3 by (blast intro: later.intros)
  have l5: "later unix s3 s5"
    using r3 step5 by (blast intro: later.intros)
  have "6 \<le> 1 + r" using r by simp
  with s3 have w3: "\<exists>d. 6 \<le> d \<and> repeat_words s3 = [(pinyin B, (B, 2, d))]" by blast
  have e: "queue ?end = [] \<and> pending ?end = [] \<and> repeat_words ?end = [] \<and>
      correct_count ?end = 4 \<and> incorrect_count ?end = 1 \<and>
      last (effects ?end) = ShowFinalScore 4 1 True"
    using s6 by simp
  show ?thesis
    apply (rule exI [of _ s3], rule exI [of _ s5], rule exI [of _ ?end])
    using l3 s3(1,3) w3 s3(5,6) l5 s5 fin e apply simp
    done
qed

theorem three_cards_witness:
  "\<exists>s'. quiz_session True
       [demo_word ''ma'' ''A'', demo_word ''ni'' ''B'', demo_word ''hao'' ''C''] [0] [2, 1] 0
       [(1, CHR '' ''), (2, CHR '' ''), (3, CHR '' ''), (4, CHR ''x''),
        (5, CHR '' ''), (6, CHR '' ''), (7, CHR '' ''), (8, CHR '' ''),
        (9, CHR '' ''), (10, CHR '' '')] = Ended s' \<and>
      correct_count s' = 4 \<and> incorrect_count s' = 1"
proof -
  have "fst (shuffle [2, 1]
      [demo_word ''ma'' ''A'', demo_word ''ni'' ''B'', demo_word ''hao'' ''C''])
      = [demo_word ''ma'' ''A'', demo_word ''ni'' ''B'', demo_word ''hao'' ''C'']"
    by (simp add: shuffle_def randint_def numeral_2_eq_2)
  from three_cards [OF this refl, of True "[0]" 0 1 2 3 4 5 6 7 8 9 10]
  show ?thesis by blast
qed

text \<open>
  Claim C3. \<open>check_for_quit\<close>, entered with \<open>q\<close> or \<open>Q\<close>, is to return true exactly
  when the keys that follow are \<open>u\<close>, \<open>i\<close>, \<open>t\<close> within the deadline of one second,
  and false when the deadline elapses before the buffer has length 4; the source
  announces the same ("Wait briefly for the remaining characters with timeout",
  "1 second to type quit"). The code does not keep the deadline: the loop tests
  \<^verbatim>\<open>time.time() < timeout\<close> only at its head and then waits in \<open>get_key\<close> for the
  next key, however late it comes. After a \<open>q\<close> at time 0, with \<open>u\<close> at 0.1 s and
  \<open>i\<close> at 0.2 s, a \<open>t\<close> that arrives at 1.5 s, half a second after the deadline,
  completes the word, and \<open>check_for_quit\<close> returns true where the claim says false.
  The rest of the claim holds on the code (\<open>check_for_quit_accepts\<close>): true needs
  \<open>u\<close>, \<open>i\<close>, \<open>t\<close> in order, the first key that leaves the prefixes of \<open>quit\<close> gives
  false at once, and a deadline found passed at the head of the loop gives false.
\<close>

theorem check_for_quit_late_key:
  "check_for_quit True (Some ''q'') 0 [(100, CHR ''u''), (200, CHR ''i''), (1500, CHR ''t'')]
     = Some (True, 1500, []) \<and> \<not> (1500 \<le> (0 :: int) + 1000)"
  by (simp add: check_for_quit_def quit_loop.simps get_key_allowed allowed_keys_def
      py_lower_def lower_char_def Let_def)

text \<open>
  Claim C4, as the code has it. In a quiz over a deck whose identities are all
  different, a card judged incorrect in the main loop at position \<open>p\<close> is put among the
  repeats with required streak 2 and due position \<open>p + r\<close>, for a draw \<open>r\<close> of the
  inclusive range from 5 to 10; and as long as the queue lasts, the card is not taken
  from the queue at a position before \<open>p + r\<close>. (The random source gives the range;
  how the draws are distributed is outside this model.)
\<close>

theorem missed_card_held_back:
  assumes "distinct (map pinyin ws)"
    and "reachable unix ws s"
    and "queue s = (w, n) # rest"
    and "main_iteration unix w n (s\<lparr>queue := rest\<rparr>) = Next False s'"
  shows "\<exists>r. 5 \<le> r \<and> r \<le> 10 \<and>
           map_of (repeat_words s') (pinyin w) = Some (w, 2, position s + r) \<and>
           (\<forall>t w' n' rest'. later unix s' t \<and> queue t = (w', n') # rest' \<and> pinyin w' = pinyin w
              \<longrightarrow> position s + r \<le> position t)"
proof -
  from assms(3,4) obtain r where r: "5 \<le> r" "r \<le> 10"
    and q: "queue s' = fst (insert_words (due_words s) rest (rng s))"
    and rw: "repeat_words s' = dict_set (pinyin w) (w, 2, position s + r) (not_due s)"
    by (rule card_step) simp
  let ?k = "pinyin w"
  let ?d = "position s + r"
  from assms(2) have keyed: "keyed s" by (rule reachable_keyed)
  have once: "count (live s) ?k \<le> 1"
    using assms(1,2) by (rule reachable_once)
  have live: "live s = add_mset ?k (mset (map (pinyin \<circ> fst) rest) +
      mset (map fst (repeat_words s)) + mset (map (pinyin \<circ> fst) (pending s)))"
    using assms(3) by (simp add: live_def)
  from once have z: "count (mset (map (pinyin \<circ> fst) rest)) ?k = 0"
    "count (mset (map fst (repeat_words s))) ?k = 0"
    unfolding live by simp_all
  note not_rest = z(1) [unfolded count_mset_0_iff] and not_reg = z(2) [unfolded count_mset_0_iff]
  have map_of: "map_of (repeat_words s') ?k = Some (w, 2, ?d)"
    unfolding rw by (simp add: dict_set_map_of)
  from assms(2,3,4) have reach': "reachable unix ws s'"
    by (blast intro: reachable.step quiz_step.card)
  have "held_back ?k ?d s'"
  proof -
    have "pinyin w' \<noteq> ?k" if "(w', n') \<in> set (queue s')" for w' n'
    proof -
      from that have "(w', n') \<in> set (due_words s) \<or> (w', n') \<in> set rest"
        unfolding q set_insert_words by simp
      then show ?thesis
      proof
        assume "(w', n') \<in> set (due_words s)"
        then obtain k' e where "(k', (w', n', e)) \<in> set (repeat_words s)"
          by (blast dest: due_words_subset)
        with keyed have "pinyin w' \<in> set (map fst (repeat_words s))"
          by (force simp: keyed_def)
        with not_reg show ?thesis by metis
      next
        assume "(w', n') \<in> set rest"
        then have "pinyin w' \<in> set (map (pinyin \<circ> fst) rest)" by force
        with not_rest show ?thesis by metis
      qed
    qed
    moreover have "?d \<le> e" if "(?k, (w', n', e)) \<in> set (repeat_words s')" for w' n' e
    proof -
      from that rw dict_set_subset [of ?k "(w, 2, ?d)" "not_due s"]
      have "(w', n', e) = (w, 2, ?d) \<or> (?k, (w', n', e)) \<in> set (not_due s)"
        by auto
      moreover have "(?k, (w', n', e)) \<notin> set (not_due s)"
        using not_reg not_due_subset [of s] by force
      ultimately show ?thesis by simp
    qed
    ultimately show ?thesis by (auto simp: held_back_def)
  qed
  then have later: "held_back ?k ?d t" if "later unix s' t" for t
    using reach' that by (blast intro: held_back_later)
  have "?d \<le> position t"
    if "later unix s' t \<and> queue t = (w', n') # rest' \<and> pinyin w' = ?k" for t w' n' rest'
    using later [of t] that by (auto simp: held_back_def)
  with r map_of show ?thesis by blast
qed

theorem missed_card_held_back_witness:
  "main_iteration True (demo_word ''ma'' ''A'') 0
     ((start_state [demo_word ''ma'' ''A''] [0] [] 0
        [(1, CHR '' ''), (2, CHR ''x'')])\<lparr>queue := []\<rparr>) = Next False (demo_missed []) \<and>
   (\<exists>r. 5 \<le> r \<and> r \<le> 10 \<and>
      map_of (repeat_words (demo_missed [])) ''ma'' = Some (demo_word ''ma'' ''A'', 2, 0 + r))"
proof -
  let ?A = "demo_word ''ma'' ''A''"
  let ?s = "start_state [?A] [0] [] 0 [(1, CHR '' ''), (2, CHR ''x'')]"
  have d: "distinct (map pinyin [?A])" by simp
  have r: "reachable True [?A] ?s" by (rule reachable.start)
  have q: "queue ?s = (?A, 0) # []" by (simp add: shuffle_def)
  from missed_card_held_back [OF d r q demo_missed_step]
  obtain r where "5 \<le> r" "r \<le> 10"
    "map_of (repeat_words (demo_missed [])) (pinyin ?A) = Some (?A, 2, position ?s + r)"
    by blast
  then have "\<exists>r. 5 \<le> r \<and> r \<le> 10 \<and>
      map_of (repeat_words (demo_missed [])) ''ma'' = Some (?A, 2, 0 + r)"
    by auto
  with demo_missed_step [of True "[]"] show ?thesis by simp
qed

text \<open>
  The claim as stated, "never presented again at any position earlier than its due
  position", fails once the queue is empty: the loop over the pending repeats does not
  look at the due position. One card, missed at position 0, is due at position 5; the
  queue is empty, the round begins, and the card is shown again at position 1.
\<close>

theorem missed_card_shown_early:
  "main_iteration True (demo_word ''ma'' ''A'') 0
     ((start_state [demo_word ''ma'' ''A''] [0] [] 0
        [(1, CHR '' ''), (2, CHR ''x'')])\<lparr>queue := []\<rparr>) = Next False (demo_missed []) \<and>
   map_of (repeat_words (demo_missed [])) ''ma'' = Some (demo_word ''ma'' ''A'', 2, 5) \<and>
   quiz_step True (demo_missed []) (begin_round (demo_missed [])) \<and>
   presenting (begin_round (demo_missed [])) = Some (demo_word ''ma'' ''A'') \<and>
   position (begin_round (demo_missed [])) = 1"
proof -
  have "quiz_step True (demo_missed []) (begin_round (demo_missed []))"
    by (rule quiz_step.round) (simp_all add: demo_missed_def)
  then show ?thesis
    using demo_missed_step [of True "[]"]
    by (simp add: presenting_def) (simp add: demo_missed_def)
qed

text \<open>
  Claim C5. The first byte read is returned as the key exactly when it is the space or
  one of \<open>qQxX0123456789pdwmsPDWMSuUiItTbBhH\<close>, and every other byte gives \<open>None\<close>.
  This holds on the Unix branch for every character that the text stream delivers
  (\<open>get_key_unix_recognised\<close>) and on the Windows branch for every ASCII byte
  (\<open>get_key_windows_ascii\<close>). On the Windows
  branch a byte of 128 or more, such as the prefix 0xE0 that \<open>msvcrt.getch()\<close> gives
  for an arrow key, decodes to the empty string, the empty string is \<open>in\<close> the string
  of allowed characters, and \<open>get_key\<close> returns the empty string instead of \<open>None\<close>.
\<close>

theorem get_key_windows_high_byte:
  "get_key False 0 [(0, CHR 0xE0)] = Some (Some [], 0, [])"
  by (simp add: get_key_windows)

text \<open>
  Claim C6. In every state a quiz session reaches, \<open>repeat_words\<close> has at most one item
  for an identity. And a card that schedules a repeat (a miss, or a correct answer with
  a required streak above 1) for an identity that has an item waiting, in the main loop
  or in a round over the pending repeats, leaves the identities of the dict as they
  were, and the item under that identity is the new one: the old due position and
  streak are gone. (In the main loop the new due position is the position plus a draw
  from 5 to 10; in a round over the pending repeats it is 0.)
\<close>

theorem one_repeat_per_identity:
  assumes "reachable unix ws s"
  shows "distinct (map fst (repeat_words s)) \<and>
    (\<forall>w n rest c s'.
       queue s = (w, n) # rest \<and> main_iteration unix w n (s\<lparr>queue := rest\<rparr>) = Next c s' \<and>
       pinyin w \<in> set (map fst (not_due s)) \<and> (\<not> c \<or> n > 1)
       \<longrightarrow> map fst (repeat_words s') = map fst (not_due s) \<and>
           (\<exists>r. 5 \<le> r \<and> r \<le> 10 \<and>
              (\<forall>e \<in> set (repeat_words s'). fst e = pinyin w \<longrightarrow>
                 snd e = (w, if c then n - 1 else 2, position s + r)))) \<and>
    (\<forall>w n ps c s'.
       pending s = (w, n) # ps \<and> drain_item unix w n (s\<lparr>pending := ps\<rparr>) = Next c s' \<and>
       pinyin w \<in> set (map fst (repeat_words s)) \<and> (\<not> c \<or> n > 1)
       \<longrightarrow> map fst (repeat_words s') = map fst (repeat_words s) \<and>
           (\<forall>e \<in> set (repeat_words s'). fst e = pinyin w \<longrightarrow>
              snd e = (w, if c then n - 1 else 2, 0)))"
proof (intro conjI allI impI)
  show d: "distinct (map fst (repeat_words s))"
    using assms by (rule reachable_distinct_keys)
  then have dn: "distinct (map fst (not_due s))"
    by (simp add: not_due_def distinct_map_filter)
  {
    fix w n rest c s'
    assume a: "queue s = (w, n) # rest \<and>
      main_iteration unix w n (s\<lparr>queue := rest\<rparr>) = Next c s' \<and>
      pinyin w \<in> set (map fst (not_due s)) \<and> (\<not> c \<or> n > 1)"
    then have "queue s = (w, n) # rest"
      and "main_iteration unix w n (s\<lparr>queue := rest\<rparr>) = Next c s'"
      by simp_all
    then obtain r where r: "5 \<le> r" "r \<le> 10" and
      "repeat_words s' =
        (if c then
           (if n > 1 then dict_set (pinyin w) (w, n - 1, position s + r) (not_due s)
            else not_due s)
         else dict_set (pinyin w) (w, 2, position s + r) (not_due s))"
      by (rule card_step)
    with a have rw: "repeat_words s' =
        dict_set (pinyin w) (w, if c then n - 1 else 2, position s + r) (not_due s)"
      by auto
    from a show "map fst (repeat_words s') = map fst (not_due s)"
      unfolding rw by (simp add: dict_set_keys)
    have "\<forall>e \<in> set (repeat_words s'). fst e = pinyin w \<longrightarrow>
        snd e = (w, if c then n - 1 else 2, position s + r)"
      unfolding rw using dict_set_replaces [OF dn] by blast
    with r show "\<exists>r. 5 \<le> r \<and> r \<le> 10 \<and>
        (\<forall>e \<in> set (repeat_words s'). fst e = pinyin w \<longrightarrow>
           snd e = (w, if c then n - 1 else 2, position s + r))"
      by blast
  }
  {
    fix w n ps c s'
    assume a: "pending s = (w, n) # ps \<and>
      drain_item unix w n (s\<lparr>pending := ps\<rparr>) = Next c s' \<and>
      pinyin w \<in> set (map fst (repeat_words s)) \<and> (\<not> c \<or> n > 1)"
    then have "repeat_words s' =
        (if c then
           (if n > 1 then dict_set (pinyin w) (w, n - 1, 0) (repeat_words s)
            else repeat_words s)
         else dict_set (pinyin w) (w, 2, 0) (repeat_words s))"
      by (blast intro: repeat_step(2))
    with a have rw: "repeat_words s' =
        dict_set (pinyin w) (w, if c then n - 1 else 2, 0) (repeat_words s)"
      by auto
    from a show "map fst (repeat_words s') = map fst (repeat_words s)"
      unfolding rw by (simp add: dict_set_keys)
    show "\<forall>e \<in> set (repeat_words s'). fst e = pinyin w \<longrightarrow>
        snd e = (w, if c then n - 1 else 2, 0)"
      unfolding rw using dict_set_replaces [OF d] by blast
  }
qed

theorem one_repeat_per_identity_witness:
  "repeat_words (demo_twins_1 [(3, CHR '' ''), (4, CHR ''x'')])
     = [(''shi'', (demo_word ''shi'' ''A'', 2, 5))] \<and>
   repeat_words (demo_twins_2 []) = [(''shi'', (demo_word ''shi'' ''B'', 2, 6))] \<and>
   distinct (map fst (repeat_words (demo_twins_1 [(3, CHR '' ''), (4, CHR ''x'')]))) \<and>
   map fst (repeat_words (demo_twins_2 []))
     = map fst (not_due (demo_twins_1 [(3, CHR '' ''), (4, CHR ''x'')]))"
proof -
  let ?s = "demo_twins_1 [(3, CHR '' ''), (4, CHR ''x'')]"
  let ?B = "demo_word ''shi'' ''B''"
  have q: "queue ?s = (?B, 0) # []" by (simp add: demo_twins_1_def)
  have k: "pinyin ?B \<in> set (map fst (not_due ?s))"
    by (simp add: not_due_def is_due_def demo_twins_1_def)
  have s: "main_iteration True ?B 0 (?s\<lparr>queue := []\<rparr>) = Next False (demo_twins_2 [])"
    by (rule demo_twins_2_step)
  from one_repeat_per_identity [OF demo_twins_1_reachable [of True]] q k s
  have "distinct (map fst (repeat_words ?s))"
    and "map fst (repeat_words (demo_twins_2 [])) = map fst (not_due ?s)"
    by blast+
  then show ?thesis by (simp add: demo_twins_1_def demo_twins_2_def not_due_def is_due_def)
qed

text \<open>
  Claim C7, as the code has it. From every state in which a quiz session enters or
  goes through the last phase (the queue is empty), the rounds over the pending
  repeats come to an end with \<open>repeat_words\<close> empty as soon as the answers are all
  correct: no card is then shown more than twice, so four keys (space and space, twice)
  for each waiting card are enough, and the session is complete.
\<close>

theorem drain_terminates:
  assumes "reachable unix ws s"
    and "queue s = []"
    and "\<forall>e \<in> set (stdin s). snd e = CHR '' ''"
    and "4 * (length (pending s) + length (repeat_words s)) \<le> length (stdin s)"
  shows "\<exists>s'. drain unix s = Ended s' \<and> repeat_words s' = [] \<and> pending s' = []"
proof -
  from assms(1) have "streaks_ok s" by (rule reachable_streaks_ok)
  then have "cards_left s \<le> 2 * (length (pending s) + length (repeat_words s))"
    by (rule cards_left_bound)
  with assms(4) have "2 * cards_left s \<le> length (stdin s)" by simp
  with assms(3) show ?thesis using assms(2) by (rule all_correct_finishes)
qed

theorem drain_terminates_witness:
  "\<exists>s'. drain True (demo_missed [(3, CHR '' ''), (4, CHR '' ''), (5, CHR '' ''), (6, CHR '' '')])
      = Ended s' \<and> repeat_words s' = [] \<and> pending s' = []"
proof -
  let ?s = "demo_missed [(3, CHR '' ''), (4, CHR '' ''), (5, CHR '' ''), (6, CHR '' '')]"
  have "reachable True [demo_word ''ma'' ''A''] ?s" by (rule demo_missed_reachable)
  moreover have "queue ?s = []" by (simp add: demo_missed_def)
  moreover have "\<forall>e \<in> set (stdin ?s). snd e = CHR '' ''" by (simp add: demo_missed_def)
  moreover have "4 * (length (pending ?s) + length (repeat_words ?s)) \<le> length (stdin ?s)"
    by (simp add: demo_missed_def)
  ultimately show ?thesis by (rule drain_terminates)
qed

text \<open>
  The claim as stated, "for every sequence of judgments", fails: a card judged
  incorrect in every round goes back among the repeats with streak 2 every time. A
  session over the one card \<open>ma\<close>, missed in the main loop and then in \<open>n\<close> rounds
  over the pending repeats, for any number \<open>n\<close>, has not ended: it waits, with the
  card in hand, for the next key.
\<close>

theorem drain_never_ends:
  "\<forall>n. \<exists>b. quiz_session True [demo_word ''ma'' ''A''] [0] [] 0
            ((1, CHR '' '') # (2, CHR ''x'') # wrong_rounds n) = Blocked b
          \<and> pending b \<noteq> []"
proof
  fix n
  have "\<exists>b. drain True (demo_missed (wrong_rounds n)) = Blocked b \<and> pending b \<noteq> []"
    by (rule always_wrong [where w = "demo_word ''ma'' ''A''" and d = 5])
      (simp_all add: demo_missed_def)
  then show "\<exists>b. quiz_session True [demo_word ''ma'' ''A''] [0] [] 0
            ((1, CHR '' '') # (2, CHR ''x'') # wrong_rounds n) = Blocked b
          \<and> pending b \<noteq> []"
    by (simp add: demo_missed_session)
qed

text \<open>
  Claim C8. In practice mode a \<open>b\<close> (or \<open>B\<close>) pressed while the cursor is 0 changes
  nothing: \<open>practice_keys\<close>, the wait of the question step and of the answer step
  alike, passes the key over and goes on waiting with the same cursor. Pressed while
  the cursor is above 0 it takes exactly 1 off the cursor, at either step. So from cursor 0 of 5 cards, four times space and
  space (reveal and advance) and then one \<open>b\<close> leave the cursor at 3.
\<close>

theorem practice_back:
  assumes "c = CHR ''b'' \<or> c = CHR ''B''"
  shows "(cursor s = 0 \<longrightarrow>
            practice_keys unix (cursor s) t1 ((a, c) # rest) =
              practice_keys unix (cursor s) (max t1 a) rest)
       \<and> (0 < cursor s \<and> stdin s = (a, c) # rest \<longrightarrow>
            practice_iteration unix s =
              Next () (s\<lparr>now := max (now s) a, stdin := rest, cursor := cursor s - 1\<rparr>)
          \<and> practice_answer unix s =
              Next () (s\<lparr>now := max (now s) a, stdin := rest, cursor := cursor s - 1\<rparr>))
       \<and> (\<exists>s'. practice_loop unix (practice_start groups 5 t0
              [(a1, CHR '' ''), (a2, CHR '' ''), (a3, CHR '' ''), (a4, CHR '' ''),
               (a5, CHR '' ''), (a6, CHR '' ''), (a7, CHR '' ''), (a8, CHR '' ''), (a9, c)])
              = Blocked s' \<and> cursor s' = 3)"
proof (intro conjI impI)
  assume "cursor s = 0"
  then show "practice_keys unix (cursor s) t1 ((a, c) # rest) =
      practice_keys unix (cursor s) (max t1 a) rest"
    by (simp add: practice_keys_b [OF assms])
next
  assume h: "0 < cursor s \<and> stdin s = (a, c) # rest"
  then show "practice_iteration unix s =
      Next () (s\<lparr>now := max (now s) a, stdin := rest, cursor := cursor s - 1\<rparr>)"
    by (simp add: practice_iteration_def practice_keys_b [OF assms] Let_def)
  from h show "practice_answer unix s =
      Next () (s\<lparr>now := max (now s) a, stdin := rest, cursor := cursor s - 1\<rparr>)"
    by (simp add: practice_answer_def practice_keys_b [OF assms] Let_def)
next
  let ?sp = "CHR '' ''"
  let ?s0 = "practice_start groups 5 t0
        [(a1, ?sp), (a2, ?sp), (a3, ?sp), (a4, ?sp), (a5, ?sp), (a6, ?sp), (a7, ?sp), (a8, ?sp),
         (a9, c)]"
  have s0: "cursor ?s0 = 0" "total_words ?s0 = 5"
    "stdin ?s0 = (a1, ?sp) # (a2, ?sp) #
       [(a3, ?sp), (a4, ?sp), (a5, ?sp), (a6, ?sp), (a7, ?sp), (a8, ?sp), (a9, c)]"
    by (simp_all add: practice_start_def)
  obtain s1 where s1: "practice_loop unix ?s0 = practice_loop unix s1" "cursor s1 = 1"
    "total_words s1 = 5"
    "stdin s1 = (a3, ?sp) # (a4, ?sp) # [(a5, ?sp), (a6, ?sp), (a7, ?sp), (a8, ?sp), (a9, c)]"
    using practice_advance [of ?s0, OF _ s0(3), of unix] s0(1,2) by auto
  obtain s2 where s2: "practice_loop unix s1 = practice_loop unix s2" "cursor s2 = 2"
    "total_words s2 = 5" "stdin s2 = (a5, ?sp) # (a6, ?sp) # [(a7, ?sp), (a8, ?sp), (a9, c)]"
    using practice_advance [of s1, OF _ s1(4), of unix] s1(2,3) by auto
  obtain s3 where s3: "practice_loop unix s2 = practice_loop unix s3" "cursor s3 = 3"
    "total_words s3 = 5" "stdin s3 = (a7, ?sp) # (a8, ?sp) # [(a9, c)]"
    using practice_advance [of s2, OF _ s2(4), of unix] s2(2,3) by auto
  obtain s4 where s4: "practice_loop unix s3 = practice_loop unix s4" "cursor s4 = 4"
    "total_words s4 = 5" "stdin s4 = (a9, c) # []"
    using practice_advance [of s3, OF _ s3(4), of unix] s3(2,3) by auto
  obtain s5 where s5: "practice_loop unix s4 = practice_loop unix s5" "cursor s5 = 3"
    "total_words s5 = 5" "stdin s5 = []"
    using practice_go_back [OF assms _ _ s4(4), of unix] s4(2,3) by auto
  have "practice_loop unix s5 = Blocked s5"
    using s5 by (intro practice_waits) simp_all
  with s1(1) s2(1) s3(1) s4(1) s5(1,2)
  show "\<exists>s'. practice_loop unix ?s0 = Blocked s' \<and> cursor s' = 3"
    by auto
qed

theorem practice_back_witness:
  "practice_keys True 0 0 [(1, CHR ''b'')] = practice_keys True 0 (max 0 1) [] \<and>
   practice_iteration True ((practice_start [0] 5 0 [(1, CHR ''b'')])\<lparr>cursor := 2\<rparr>) =
     Next () ((practice_start [0] 5 0 [(1, CHR ''b'')])\<lparr>now := 1, stdin := [], cursor := 1\<rparr>) \<and>
   practice_answer True ((practice_start [0] 5 0 [(1, CHR ''b'')])\<lparr>cursor := 2\<rparr>) =
     Next () ((practice_start [0] 5 0 [(1, CHR ''b'')])\<lparr>now := 1, stdin := [], cursor := 1\<rparr>) \<and>
   (\<exists>s'. practice_loop True (practice_start [0] 5 0
      [(1, CHR '' ''), (2, CHR '' ''), (3, CHR '' ''), (4, CHR '' ''),
       (5, CHR '' ''), (6, CHR '' ''), (7, CHR '' ''), (8, CHR '' ''), (9, CHR ''b'')])
      = Blocked s' \<and> cursor s' = 3)"
proof -
  have c: "CHR ''b'' = CHR ''b'' \<or> CHR ''b'' = CHR ''B''" by simp
  let ?s0 = "practice_start [0] 5 0 [(1, CHR ''b'')]"
  note at0 = practice_back [OF c, where s = ?s0 and unix = True and ?t1.0 = 0 and a = 1
      and rest = "[]" and groups = "[0]" and ?t0.0 = 0 and ?a1.0 = 1 and ?a2.0 = 2 and ?a3.0 = 3
      and ?a4.0 = 4 and ?a5.0 = 5 and ?a6.0 = 6 and ?a7.0 = 7 and ?a8.0 = 8 and ?a9.0 = 9]
  note at2 = practice_back [OF c, where s = "?s0\<lparr>cursor := 2\<rparr>" and unix = True and a = 1
      and rest = "[]"]
  have "cursor ?s0 = 0" by (simp add: practice_start_def)
  with at0 have "practice_keys True 0 0 [(1, CHR ''b'')] = practice_keys True 0 (max 0 1) []"
    by simp
  moreover have "0 < cursor (?s0\<lparr>cursor := 2\<rparr>) \<and> stdin (?s0\<lparr>cursor := 2\<rparr>) = (1, CHR ''b'') # []"
    by (simp add: practice_start_def)
  with at2 have "practice_iteration True (?s0\<lparr>cursor := 2\<rparr>) =
      Next () (?s0\<lparr>now := 1, stdin := [], cursor := 1\<rparr>)"
    and "practice_answer True (?s0\<lparr>cursor := 2\<rparr>) =
      Next () (?s0\<lparr>now := 1, stdin := [], cursor := 1\<rparr>)"
    by (simp_all add: practice_start_def)
  moreover from at0 have "\<exists>s'. practice_loop True (practice_start [0] 5 0
      [(1, CHR '' ''), (2, CHR '' ''), (3, CHR '' ''), (4, CHR '' ''),
       (5, CHR '' ''), (6, CHR '' ''), (7, CHR '' ''), (8, CHR '' ''), (9, CHR ''b'')])
      = Blocked s' \<and> cursor s' = 3"
    by blast
  ultimately show ?thesis by blast
qed

text \<open>
  Claim C9, as the code has it. A practice session that ends, by a quit or by coming
  to the end of the deck, has written to the results file exactly once: the time it
  took (the clock at the end minus the clock at the start), with the session and the
  selected groups, and no row for any card. A quiz that ends, by a quit or by
  completion, writes nothing at its end: it prints the final score once, as the last
  thing it does, with the counts as they stand; the results file has received one row
  for each card judged, as many as the two counts together, each written when the card
  was judged.
\<close>

theorem session_end_effects:
  "(run_quiz unix words groups mistake_mode all_results rs clk inp = Some (Ended s') \<longrightarrow>
      (\<exists>rows f.
         effects s' = rows @ [ShowFinalScore (correct_count s') (incorrect_count s') f] \<and>
         (\<forall>e \<in> set rows. \<exists>w b. e = SaveResult w b (fst (flush_stdin unix clk inp)) groups) \<and>
         correct_count s' = int (length (filter (saved True) rows)) \<and>
         incorrect_count s' = int (length (filter (saved False) rows)))) \<and>
   (run_practice unix words groups mistake_mode all_results clk inp = Some (Ended p') \<longrightarrow>
      effects p' =
        [SavePracticeTime (fst (flush_stdin unix clk inp))
           (now p' - fst (flush_stdin unix clk inp)) groups])"
proof (intro conjI impI)
  obtain t0 inp0 where fl: "flush_stdin unix clk inp = (t0, inp0)" by fastforce
  {
    assume "run_quiz unix words groups mistake_mode all_results rs clk inp = Some (Ended s')"
    then obtain ws where "main_loop unix (start_state ws groups rs t0 inp0) = Ended s'"
      using fl by (auto simp: run_quiz_def quiz_session_def Let_def split: if_splits)
    then have "reported (start_state ws groups rs t0 inp0) s'"
      by (rule main_loop_reported)
    then show "\<exists>rows f.
         effects s' = rows @ [ShowFinalScore (correct_count s') (incorrect_count s') f] \<and>
         (\<forall>e \<in> set rows. \<exists>w b. e = SaveResult w b (fst (flush_stdin unix clk inp)) groups) \<and>
         correct_count s' = int (length (filter (saved True) rows)) \<and>
         incorrect_count s' = int (length (filter (saved False) rows))"
      using fl by (simp add: reported_def)
  }
  {
    assume "run_practice unix words groups mistake_mode all_results clk inp = Some (Ended p')"
    then obtain n where "practice_loop unix (practice_start groups n t0 inp0) = Ended p'"
      using fl by (auto simp: run_practice_def Let_def split: if_splits)
    from practice_loop_ended [OF this]
    show "effects p' =
        [SavePracticeTime (fst (flush_stdin unix clk inp))
           (now p' - fst (flush_stdin unix clk inp)) groups]"
      using fl by (simp add: practice_start_def)
  }
qed

theorem session_end_effects_witness:
  "(\<exists>s'. run_quiz True [demo_word ''ma'' ''A''] [0] None None [] 0
        [(200, CHR '' ''), (300, CHR '' '')] = Some (Ended s') \<and>
      (\<exists>rows f.
         effects s' = rows @ [ShowFinalScore (correct_count s') (incorrect_count s') f] \<and>
         correct_count s' = int (length (filter (saved True) rows)))) \<and>
   (\<exists>p'. run_practice True [demo_word ''ma'' ''A''] [0] None None 0
        [(200, CHR '' ''), (300, CHR '' '')] = Some (Ended p') \<and>
      effects p' = [SavePracticeTime 100 (now p' - 100) [0]])"
proof -
  let ?A = "demo_word ''ma'' ''A''"
  let ?inp = "[(200, CHR '' ''), (300, CHR '' '')] :: input"
  have fl: "flush_stdin True 0 ?inp = (100, ?inp)"
    by (simp add: flush_stdin_def)
  have sel: "select_words [?A] [0] None None 100 = [?A]"
    by (simp add: select_words_def)
  let ?s0 = "start_state [?A] [0] [] 100 ?inp"
  have "queue ?s0 = (?A, 0) # []" and "stdin ?s0 = (200, CHR '' '') # (300, CHR '' '') # []"
    by (simp_all add: shuffle_def)
  then obtain s1 r where "main_loop True ?s0 = main_loop True s1"
    and "queue s1 = fst (insert_words (due_words ?s0) [] (rng ?s0))"
    and "repeat_words s1 =
      (if 0 > (1 :: int) then dict_set (pinyin ?A) (?A, 0 - 1, position ?s0 + r) (not_due ?s0)
       else not_due ?s0)"
    and "pending s1 = pending ?s0"
    by (rule main_card_correct)
  then have "main_loop True ?s0 = Ended (show_final_score True s1)"
    by (simp add: main_loop_done drain_done due_words_def not_due_def)
  then have q: "run_quiz True [?A] [0] None None [] 0 ?inp
      = Some (Ended (show_final_score True s1))"
    by (simp add: run_quiz_def quiz_session_def fl sel)
  let ?p0 = "practice_start [0] 1 100 ?inp"
  have "cursor ?p0 < total_words ?p0"
    and "stdin ?p0 = (200, CHR '' '') # (300, CHR '' '') # []"
    by (simp_all add: practice_start_def)
  then obtain p1 where "practice_loop True ?p0 = practice_loop True p1"
    and "cursor p1 = cursor ?p0 + 1" and "total_words p1 = total_words ?p0"
    using practice_advance [of ?p0 200 300 "[]" True] by blast
  then have "practice_loop True ?p0 = Ended (save_practice_time (now p1 - start_time p1) p1)"
    by (simp add: practice_loop.simps [of True p1] practice_start_def)
  then have p: "run_practice True [?A] [0] None None 0 ?inp
      = Some (Ended (save_practice_time (now p1 - start_time p1) p1))"
    by (simp add: run_practice_def fl sel)
  note inst = session_end_effects [where unix = True and words = "[?A]" and groups = "[0]"
      and mistake_mode = None and all_results = None and rs = "[]" and clk = 0 and inp = ?inp
      and s' = "show_final_score True s1"
      and p' = "save_practice_time (now p1 - start_time p1) p1"]
  from inst q p fl show ?thesis
    by (auto simp del: show_final_score_fields)
qed

text \<open>
  The claim as stated, "every session end writes the aggregate results to the sink
  exactly once", fails for the quiz: a quiz that is quit at its first question has
  printed the score and written nothing to the results file.
\<close>

theorem quiz_quit_writes_nothing:
  "Option.bind
     (run_quiz True [demo_word ''ma'' ''A''] [0] None None [] 0
        [(200, CHR ''q''), (300, CHR ''u''), (400, CHR ''i''), (500, CHR ''t'')])
     ended_effects = Some [ShowFinalScore 0 0 False] \<and>
   filter writes_sink [ShowFinalScore 0 0 False] = []"
  by (simp add: run_quiz_def quiz_session_def flush_stdin_def select_words_def
      start_state_def shuffle_def main_loop.simps main_iteration_def add_due_repeats_def
      await_judgement_def quiz_question_keys.simps get_key_allowed allowed_keys_def
      check_for_quit_def quit_loop.simps py_lower_def lower_char_def show_final_score_def
      Let_def)

text \<open>
  Claim C10. In every state a quiz session reaches, every item of \<open>repeat_words\<close> (and
  of the round taken from it) has a required streak of 1 or 2, and every entry of the
  queue a required streak of 0, 1 or 2: however often a card is missed, it never asks
  for more than two further correct answers.
\<close>

theorem streaks_bounded:
  assumes "reachable unix ws s"
  shows "(\<forall>(k, (w, n, d)) \<in> set (repeat_words s). n = 1 \<or> n = 2) \<and>
         (\<forall>(w, n) \<in> set (queue s). n = 0 \<or> n = 1 \<or> n = 2) \<and>
         (\<forall>(w, n) \<in> set (pending s). n = 1 \<or> n = 2)"
  using reachable_streaks_ok [OF assms] by (auto simp: streaks_ok_def)

theorem streaks_bounded_witness:
  "repeat_words (demo_missed []) = [(''ma'', (demo_word ''ma'' ''A'', 2, 5))] \<and>
   set (map (fst \<circ> snd \<circ> snd) (repeat_words (demo_missed []))) \<subseteq> {1, 2}"
proof -
  have "\<forall>(k, (w, n, d)) \<in> set (repeat_words (demo_missed [])). n = 1 \<or> n = 2"
    using streaks_bounded [OF demo_missed_reachable [of True "[]"]] by blast
  then have "set (map (fst \<circ> snd \<circ> snd) (repeat_words (demo_missed []))) \<subseteq> {1, 2}"
    by auto
  then show ?thesis by (simp add: demo_missed_def)
qed

end
